theory Spec2Isabelle
  imports Complex_Main "HOL-Library.AList" "HOL-Library.Char_ord" "HOL-Library.List_Lexorder"
begin

section \<open>Data model of the graph-search engine (src/src/App.jsx)\<close>

text \<open>
  Node ids are the numbers \<open>0, 1, 2, ...\<close> the generator and the presets assign. Edge weights,
  preset heuristic values and the floored Euclidean distance are whole numbers in the program
  (\<open>Math.floor\<close> of a distance, integer literals in the presets), so costs and priorities are
  \<open>int\<close>; coordinates are the reals that the doubles stand for. An optional attribute of a
  JavaScript object (\<open>h\<close>) is an \<open>option\<close>.
\<close>

record node =
  node_id :: nat
  node_x :: real
  node_y :: real
  node_label :: string
  node_h :: "int option"

record edge =
  source :: nat
  target :: nat
  weight :: int

record adj_entry =
  adj_to :: nat
  adj_weight :: int

text \<open>The adjacency object: a finite table from node id to the array of its outgoing entries.\<close>

type_synonym adjacency = "(nat \<times> adj_entry list) list"

datatype search_type = BFS | DFS | Dijkstra | AStar | BiBFS

datatype heuristic_type = Euclidean | Preset | Zero

record options =
  checkDuplicates :: bool
  heuristicType :: heuristic_type

datatype status = Exploring | Found | Failed | Limit_reached

datatype side = StartSide | EndSide

record frontier_item =
  item_id :: nat
  cost :: int
  priority :: int
  item_h :: "int option"
  pathLength :: nat

text \<open>
  A snapshot's queue holds frontier items for the four strategies of the shared loop and
  \<open>{id, side}\<close> pairs for the bidirectional search.
\<close>

datatype queue_entry = Item frontier_item | Sided nat side

record snapshot =
  queue :: "queue_entry list"
  visited :: "nat set"
  parents :: "nat \<rightharpoonup> nat"
  current :: "nat option"
  status :: status
  activeSide :: "side option"
  intersect :: "nat option"

text \<open>
  The only exception the engine can raise is the runtime's \<open>TypeError\<close> (a property read or a
  method call on \<open>undefined\<close>); the source has no error class of its own.
\<close>

datatype error = TypeError

definition MAX_ITERATIONS :: nat where
  "MAX_ITERATIONS = 1000"

text \<open>
  \<open>distance = (a, b) => Math.hypot(a.x - b.x, a.y - b.y)\<close> works in double precision: the two
  subtractions round, and \<open>Math.hypot\<close> returns an approximation of the root that the language
  leaves to the implementation. Neither result is modelled by the exact real-number operation;
  the two operations of the runtime are parameters of the model, and a theorem stated for an
  arbitrary \<open>fl\<close> holds for whatever the runtime computes. \<open>Math.floor\<close> of the result is exact.
\<close>

record float_ops =
  fl_sub :: "real \<Rightarrow> real \<Rightarrow> real"
  fl_hypot :: "real \<Rightarrow> real \<Rightarrow> real"

definition distance :: "float_ops \<Rightarrow> node \<Rightarrow> node \<Rightarrow> real" where
  "distance fl a b = fl_hypot fl (fl_sub fl (node_x a) (node_x b)) (fl_sub fl (node_y a) (node_y b))"

text \<open>
  The operations without rounding. They stand for the runtime in the closed statements below.
  None of the runs evaluated there computes a distance (breadth-first, depth-first and
  bidirectional runs never ask for a heuristic, and every node of the \<open>nonAdmissible\<close> preset
  carries its \<open>h\<close>), and no statement gives a distance a numeric value.
\<close>

definition exact_ops :: float_ops where
  "exact_ops = \<lparr>fl_sub = (\<lambda>x y. x - y), fl_hypot = (\<lambda>x y. sqrt (x\<^sup>2 + y\<^sup>2))\<rparr>"

section \<open>GraphSearch.buildAdjacency\<close>

text \<open>
  \<open>adj[e.source].push(...)\<close> raises a TypeError when \<open>adj[e.source]\<close> is undefined, that is when
  the id is not the id of a node; likewise for the target, after the first push has happened.
\<close>

definition add_edge :: "adjacency \<Rightarrow> edge \<Rightarrow> error + adjacency" where
  "add_edge adj e =
     (case map_of adj (source e) of
        None \<Rightarrow> Inl TypeError
      | Some l \<Rightarrow>
          (let adj1 = AList.update (source e)
                        (l @ [\<lparr>adj_to = target e, adj_weight = weight e\<rparr>]) adj
           in case map_of adj1 (target e) of
                None \<Rightarrow> Inl TypeError
              | Some l2 \<Rightarrow>
                  Inr (AList.update (target e)
                         (l2 @ [\<lparr>adj_to = source e, adj_weight = weight e\<rparr>]) adj1)))"

fun add_edges :: "adjacency \<Rightarrow> edge list \<Rightarrow> error + adjacency" where
  "add_edges adj [] = Inr adj"
| "add_edges adj (e # es) =
     (case add_edge adj e of Inl err \<Rightarrow> Inl err | Inr adj' \<Rightarrow> add_edges adj' es)"

definition init_adj :: "node list \<Rightarrow> adjacency" where
  "init_adj ns = foldl (\<lambda>adj n. AList.update (node_id n) [] adj) [] ns"

definition buildAdjacency :: "node list \<Rightarrow> edge list \<Rightarrow> error + adjacency" where
  "buildAdjacency ns es = add_edges (init_adj ns) es"

section \<open>GraphSearch.getHeuristic\<close>

definition find_node :: "node list \<Rightarrow> nat \<Rightarrow> node option" where
  "find_node ns i = find (\<lambda>n. node_id n = i) ns"

text \<open>The fall-through of \<open>getHeuristic\<close>: \<open>Math.floor(distance(node, goal))\<close>.\<close>

definition euclidean :: "float_ops \<Rightarrow> node option \<Rightarrow> node option \<Rightarrow> error + int" where
  "euclidean fl node goal =
     (case node of
        None \<Rightarrow> Inl TypeError
      | Some n \<Rightarrow> (case goal of None \<Rightarrow> Inl TypeError | Some g \<Rightarrow> Inr \<lfloor>distance fl n g\<rfloor>))"

definition getHeuristic ::
  "float_ops \<Rightarrow> node list \<Rightarrow> nat \<Rightarrow> options \<Rightarrow> nat \<Rightarrow> error + int" where
  "getHeuristic fl ns endId opts nodeId =
     (let node = find_node ns nodeId; goal = find_node ns endId in
      if heuristicType opts = Preset then
        (case node of
           None \<Rightarrow> Inl TypeError
         | Some n \<Rightarrow> (case node_h n of Some v \<Rightarrow> Inr v | None \<Rightarrow> euclidean fl node goal))
      else if heuristicType opts = Zero then Inr 0
      else euclidean fl node goal)"

section \<open>GraphSearch.snapshot\<close>

definition snapshot ::
  "frontier_item list \<Rightarrow> nat set \<Rightarrow> (nat \<rightharpoonup> nat) \<Rightarrow> nat option \<Rightarrow> status \<Rightarrow> snapshot" where
  "snapshot q vis par cur stat =
     \<lparr>queue = map Item q, visited = vis, parents = par, current = cur, status = stat,
      activeSide = None, intersect = None\<rparr>"

section \<open>GraphSearch.run: the shared loop of BFS, DFS, Dijkstra and A*\<close>

text \<open>
  What a run reads and never writes: the fields of the \<open>GraphSearch\<close> object, and the
  floating-point operations of the runtime it runs on.
\<close>

record search =
  gs_nodes :: "node list"
  gs_edges :: "edge list"
  gs_startId :: nat
  gs_endId :: nat
  gs_type :: search_type
  gs_options :: options
  gs_float :: float_ops

text \<open>
  The variables of \<open>run\<close> that change from one iteration to the next. The adjacency table is
  among them: \<open>sort\<close> and \<open>reverse\<close> work in place on the array stored in \<open>this.adj\<close>.
\<close>

record run_state =
  st_adj :: adjacency
  st_queue :: "frontier_item list"
  st_visited :: "nat set"
  st_parents :: "nat \<rightharpoonup> nat"
  st_history :: "snapshot list"

text \<open>How a loop body ends: it falls through to the next iteration, or it returns.\<close>

datatype 'a flow = Continue 'a | Return "snapshot list"

definition cost_ordered :: "search_type \<Rightarrow> bool" where
  "cost_ordered t = (t = Dijkstra \<or> t = AStar)"

definition label_of :: "node list \<Rightarrow> nat \<Rightarrow> string" where
  "label_of ns i = (case find_node ns i of Some n \<Rightarrow> node_label n | None \<Rightarrow> [])"

text \<open>
  \<open>Array.prototype.sort\<close> is stable, as \<open>sort_key\<close> is. The comparator looks both nodes up and
  reads their labels, which raises a TypeError for an id that is not the id of a node; an array
  of fewer than two elements is never compared. \<open>localeCompare\<close> is the order of the
  character codes here: the labels of the program are single capital letters.
\<close>

definition sort_neighbors :: "node list \<Rightarrow> adj_entry list \<Rightarrow> error + adj_entry list" where
  "sort_neighbors ns l =
     (if 2 \<le> length l \<and> (\<exists>a \<in> set l. find_node ns (adj_to a) = None) then Inl TypeError
      else Inr (sort_key (\<lambda>a. label_of ns (adj_to a)) l))"

text \<open>
  \<open>(this.adj[current.id] || []).sort(...)\<close>, then \<open>reverse()\<close> for DFS: the sorted (and reversed)
  array is the one the table holds afterwards; an absent id gives a fresh empty array.
\<close>

definition neighbors ::
  "search \<Rightarrow> adjacency \<Rightarrow> nat \<Rightarrow> error + (adjacency \<times> adj_entry list)" where
  "neighbors g adj i =
     (case map_of adj i of
        None \<Rightarrow> Inr (adj, [])
      | Some l \<Rightarrow>
          (case sort_neighbors (gs_nodes g) l of
             Inl err \<Rightarrow> Inl err
           | Inr s \<Rightarrow>
               (let s' = (if gs_type g = DFS then rev s else s)
                in Inr (AList.update i s' adj, s'))))"

text \<open>The \<open>for (let edge of neighbors)\<close> loop, with its early return at the goal.\<close>

fun expand ::
  "search \<Rightarrow> frontier_item \<Rightarrow> nat set \<Rightarrow> snapshot list \<Rightarrow> adj_entry list \<Rightarrow>
   frontier_item list \<times> (nat \<rightharpoonup> nat) \<Rightarrow> error + (frontier_item list \<times> (nat \<rightharpoonup> nat)) flow" where
  "expand g cur vis hist [] (q, par) = Inr (Continue (q, par))"
| "expand g cur vis hist (e # es) (q, par) =
     (let neighborId = adj_to e;
          newCost = cost cur + adj_weight e;
          newPathLength = pathLength cur + 1;
          inFrontier = (\<exists>it \<in> set q. item_id it = neighborId);
          shouldSkip = (checkDuplicates (gs_options g) \<and> (neighborId \<in> vis \<or> inFrontier))
      in if shouldSkip then expand g cur vis hist es (q, par)
         else
           (let par1 = par(neighborId \<mapsto> item_id cur)
            in if \<not> cost_ordered (gs_type g) \<and> neighborId = gs_endId g then
                 Inr (Return (hist @
                   [snapshot
                      (q @ [\<lparr>item_id = neighborId, cost = newCost, priority = 0,
                             item_h = None, pathLength = newPathLength\<rparr>])
                      vis par1 (Some neighborId) Found]))
               else
                 (case (if gs_type g = AStar
                        then getHeuristic (gs_float g) (gs_nodes g) (gs_endId g) (gs_options g) neighborId
                        else Inr 0) of
                    Inl err \<Rightarrow> Inl err
                  | Inr hValue \<Rightarrow>
                      expand g cur vis hist es
                        (q @ [\<lparr>item_id = neighborId, cost = newCost,
                               priority = newCost + hValue, item_h = Some hValue,
                               pathLength = newPathLength\<rparr>], par1))))"

text \<open>
  One pass through the body of the \<open>while\<close> loop, after the iteration count has been checked.
  Reading \<open>head.id\<close> off an empty queue would be a TypeError; the loop guard excludes it.
\<close>

definition iteration :: "search \<Rightarrow> run_state \<Rightarrow> error + run_state flow" where
  "iteration g st =
     (let q1 = (if cost_ordered (gs_type g) then sort_key priority (st_queue st)
                else st_queue st)
      in if q1 = [] then Inl TypeError
         else
           (let head = (if gs_type g = DFS then last q1 else hd q1);
                hist1 = st_history st @
                  [snapshot q1 (st_visited st) (st_parents st) (Some (item_id head)) Exploring];
                q2 = (if gs_type g = DFS then butlast q1 else tl q1)
            in if checkDuplicates (gs_options g) \<and> item_id head \<in> st_visited st then
                 Inr (Continue (st\<lparr>st_queue := q2, st_history := hist1\<rparr>))
               else
                 (let vis1 = insert (item_id head) (st_visited st)
                  in if cost_ordered (gs_type g) \<and> item_id head = gs_endId g then
                       Inr (Return (hist1 @
                         [snapshot q2 vis1 (st_parents st) (Some (item_id head)) Found]))
                     else
                       (case neighbors g (st_adj st) (item_id head) of
                          Inl err \<Rightarrow> Inl err
                        | Inr (adj1, nbrs) \<Rightarrow>
                            (case expand g head vis1 hist1 nbrs (q2, st_parents st) of
                               Inl err \<Rightarrow> Inl err
                             | Inr (Return hist) \<Rightarrow> Inr (Return hist)
                             | Inr (Continue (q3, par3)) \<Rightarrow>
                                 Inr (Continue
                                   \<lparr>st_adj = adj1, st_queue = q3, st_visited = vis1,
                                    st_parents = par3, st_history = hist1\<rparr>))))))"

text \<open>The \<open>while (queue.length > 0)\<close> loop; \<open>iterations\<close> is the count before the increment.\<close>

function run_loop :: "search \<Rightarrow> nat \<Rightarrow> run_state \<Rightarrow> error + snapshot list" where
  "run_loop g iterations st =
     (if st_queue st = [] then
        Inr (st_history st @
          [snapshot (st_queue st) (st_visited st) (st_parents st) None Failed])
      else if iterations + 1 > MAX_ITERATIONS then
        Inr (st_history st @
          [snapshot (st_queue st) (st_visited st) (st_parents st) None Limit_reached])
      else
        (case iteration g st of
           Inl err \<Rightarrow> Inl err
         | Inr (Return hist) \<Rightarrow> Inr hist
         | Inr (Continue st') \<Rightarrow> run_loop g (iterations + 1) st'))"
  by pat_completeness auto
termination
  by (relation "measure (\<lambda>(g, iterations, st). MAX_ITERATIONS - iterations)") auto

declare run_loop.simps [simp del]

section \<open>GraphSearch.runBiBFS\<close>

record bi_state =
  qStart :: "nat list"
  qEnd :: "nat list"
  visitedStart :: "nat set"
  visitedEnd :: "nat set"
  parentStart :: "nat \<rightharpoonup> nat"
  parentEnd :: "nat \<rightharpoonup> nat"
  bi_history :: "snapshot list"

text \<open>
  The snapshot pushed after each dequeue: both queues tagged with their side, the union of the
  visited sets, and the spread \<open>{...parentStart, ...parentEnd}\<close>, in which the end side wins.
\<close>

definition bi_snapshot ::
  "nat list \<Rightarrow> nat list \<Rightarrow> nat set \<Rightarrow> nat set \<Rightarrow> (nat \<rightharpoonup> nat) \<Rightarrow> (nat \<rightharpoonup> nat) \<Rightarrow>
   nat \<Rightarrow> side \<Rightarrow> snapshot" where
  "bi_snapshot qS qE vS vE pS pE cur sd =
     \<lparr>queue = map (\<lambda>i. Sided i StartSide) qS @ map (\<lambda>i. Sided i EndSide) qE,
      visited = vS \<union> vE, parents = pS ++ pE, current = Some cur, status = Exploring,
      activeSide = Some sd, intersect = None\<rparr>"

definition mark_found :: "nat \<Rightarrow> snapshot \<Rightarrow> snapshot" where
  "mark_found i s = s\<lparr>status := Found, intersect := Some i\<rparr>"

definition adj_list :: "adjacency \<Rightarrow> nat \<Rightarrow> adj_entry list" where
  "adj_list adj i = (case map_of adj i of None \<Rightarrow> [] | Some l \<Rightarrow> l)"

text \<open>The \<open>forEach\<close> over the edges of the dequeued node, for one side.\<close>

fun expand_side ::
  "nat \<Rightarrow> adj_entry list \<Rightarrow> nat set \<times> (nat \<rightharpoonup> nat) \<times> nat list \<Rightarrow>
   nat set \<times> (nat \<rightharpoonup> nat) \<times> nat list" where
  "expand_side c [] (v, p, q) = (v, p, q)"
| "expand_side c (e # es) (v, p, q) =
     (if adj_to e \<notin> v
      then expand_side c es (insert (adj_to e) v, p(adj_to e \<mapsto> c), q @ [adj_to e])
      else expand_side c es (v, p, q))"

text \<open>
  One pass through the body of the loop of \<open>runBiBFS\<close>. Its counter \<open>iterations\<close> is incremented
  and never read, so it is not part of the state.
\<close>

definition bi_iteration :: "adjacency \<Rightarrow> bi_state \<Rightarrow> bi_state flow" where
  "bi_iteration adj st =
     (let currStart = hd (qStart st);
          qS1 = tl (qStart st);
          snap1 = bi_snapshot qS1 (qEnd st) (visitedStart st) (visitedEnd st)
                    (parentStart st) (parentEnd st) currStart StartSide
      in if currStart \<in> visitedEnd st then
           Return (bi_history st @ [mark_found currStart snap1])
         else
           (case expand_side currStart (adj_list adj currStart)
                   (visitedStart st, parentStart st, qS1) of
              (vS1, pS1, qS2) \<Rightarrow>
                (let currEnd = hd (qEnd st);
                     qE1 = tl (qEnd st);
                     snap2 = bi_snapshot qS2 qE1 vS1 (visitedEnd st) pS1 (parentEnd st)
                               currEnd EndSide
                 in if currEnd \<in> vS1 then
                      Return (bi_history st @ [snap1, mark_found currEnd snap2])
                    else
                      (case expand_side currEnd (adj_list adj currEnd)
                              (visitedEnd st, parentEnd st, qE1) of
                         (vE1, pE1, qE2) \<Rightarrow>
                           Continue
                             \<lparr>qStart = qS2, qEnd = qE2, visitedStart = vS1,
                              visitedEnd = vE1, parentStart = pS1, parentEnd = pE1,
                              bi_history = bi_history st @ [snap1, snap2]\<rparr>))))"

definition adj_targets :: "adjacency \<Rightarrow> nat set" where
  "adj_targets adj = adj_to ` (\<Union>l \<in> snd ` set adj. set l)"

lemma finite_adj_targets: "finite (adj_targets adj)"
  by (simp add: adj_targets_def)

lemma adj_list_targets: "adj_to ` set (adj_list adj i) \<subseteq> adj_targets adj"
proof
  fix t assume "t \<in> adj_to ` set (adj_list adj i)"
  then obtain a where a: "a \<in> set (adj_list adj i)" and t: "t = adj_to a" by blast
  from a obtain l where l: "map_of adj i = Some l" and al: "a \<in> set l"
    by (cases "map_of adj i") (simp_all add: adj_list_def)
  from l have "(i, l) \<in> set adj" by (rule map_of_SomeD)
  then have "l \<in> snd ` set adj" by force
  with al t show "t \<in> adj_targets adj" unfolding adj_targets_def by blast
qed

lemma card_step: "finite U \<Longrightarrow> x \<in> U \<Longrightarrow> x \<notin> v \<Longrightarrow> Suc (card (U - insert x v)) = card (U - v)"
proof -
  assume f: "finite U" and x: "x \<in> U" and nv: "x \<notin> v"
  have "U - v = insert x (U - insert x v)" using x nv by blast
  moreover have "x \<notin> U - insert x v" by blast
  moreover have "finite (U - insert x v)" using f by blast
  ultimately show ?thesis by (metis card_insert_disjoint)
qed


lemma expand_side_measure:
  "finite U \<Longrightarrow> adj_to ` set es \<subseteq> U \<Longrightarrow> expand_side c es (v, p, q) = (v', p', q') \<Longrightarrow>
   card (U - v') + length q' = card (U - v) + length q"
proof (induction es arbitrary: v p q)
  case Nil
  then show ?case by simp
next
  case (Cons e es)
  from Cons.prems(2) have sub: "adj_to ` set es \<subseteq> U" and mem: "adj_to e \<in> U" by auto
  show ?case
  proof (cases "adj_to e \<in> v")
    case True
    with Cons.prems(3) have "expand_side c es (v, p, q) = (v', p', q')" by simp
    from Cons.IH[OF Cons.prems(1) sub this] show ?thesis .
  next
    case False
    with Cons.prems(3) have step:
      "expand_side c es (insert (adj_to e) v, p(adj_to e \<mapsto> c), q @ [adj_to e]) = (v', p', q')"
      by simp
    from Cons.IH[OF Cons.prems(1) sub step]
    have "card (U - v') + length q' = card (U - insert (adj_to e) v) + length (q @ [adj_to e])" .
    also have "\<dots> = Suc (card (U - insert (adj_to e) v)) + length q" by simp
    also have "\<dots> = card (U - v) + length q"
      by (simp only: card_step[OF Cons.prems(1) mem False])
    finally show ?thesis .
  qed
qed

lemma bi_iteration_measure:
  assumes "bi_iteration adj st = Continue st'" and "qStart st \<noteq> []"
  shows "card (adj_targets adj - visitedStart st') + length (qStart st')
         < card (adj_targets adj - visitedStart st) + length (qStart st)"
proof -
  obtain vS1 pS1 qS2 where ex:
    "expand_side (hd (qStart st)) (adj_list adj (hd (qStart st)))
       (visitedStart st, parentStart st, tl (qStart st)) = (vS1, pS1, qS2)"
    by (metis prod_cases3)
  from assms(1) ex have "visitedStart st' = vS1 \<and> qStart st' = qS2"
    by (auto simp: bi_iteration_def Let_def split: if_splits prod.splits)
  moreover from expand_side_measure[OF finite_adj_targets adj_list_targets ex]
  have "card (adj_targets adj - vS1) + length qS2
        = card (adj_targets adj - visitedStart st) + length (tl (qStart st))" .
  moreover from assms(2) have "length (tl (qStart st)) < length (qStart st)"
    by (cases "qStart st") auto
  ultimately show ?thesis by simp
qed

function runBiBFS_loop :: "adjacency \<Rightarrow> bi_state \<Rightarrow> snapshot list" where
  "runBiBFS_loop adj st =
     (if qStart st \<noteq> [] \<and> qEnd st \<noteq> [] then
        (case bi_iteration adj st of
           Return hist \<Rightarrow> hist
         | Continue st' \<Rightarrow> runBiBFS_loop adj st')
      else bi_history st)"
  by pat_completeness auto
termination
proof (relation "measure (\<lambda>(adj, st).
        card (adj_targets adj - visitedStart st) + length (qStart st))")
  show "wf (measure (\<lambda>(adj, st).
        card (adj_targets adj - visitedStart st) + length (qStart st)))"
    by (rule wf_measure)
next
  fix adj :: adjacency and st st' :: bi_state
  assume "qStart st \<noteq> [] \<and> qEnd st \<noteq> []" and "bi_iteration adj st = Continue st'"
  then have "card (adj_targets adj - visitedStart st') + length (qStart st')
             < card (adj_targets adj - visitedStart st) + length (qStart st)"
    by (simp add: bi_iteration_measure)
  then show "((adj, st'), (adj, st)) \<in> measure (\<lambda>(adj, st).
        card (adj_targets adj - visitedStart st) + length (qStart st))"
    by simp
qed

declare runBiBFS_loop.simps [simp del]

definition runBiBFS :: "search \<Rightarrow> adjacency \<Rightarrow> snapshot list" where
  "runBiBFS g adj =
     runBiBFS_loop adj
       \<lparr>qStart = [gs_startId g], qEnd = [gs_endId g],
        visitedStart = {gs_startId g}, visitedEnd = {gs_endId g},
        parentStart = Map.empty, parentEnd = Map.empty, bi_history = []\<rparr>"

section \<open>The constructor: build the adjacency table, then run\<close>

definition run :: "search \<Rightarrow> adjacency \<Rightarrow> error + snapshot list" where
  "run g adj =
     (if gs_type g = BiBFS then Inr (runBiBFS g adj)
      else
        (let q = [\<lparr>item_id = gs_startId g, cost = 0, priority = 0, item_h = None,
                   pathLength = 0\<rparr>]
         in if gs_startId g = gs_endId g then
              Inr [snapshot q {} Map.empty (Some (gs_startId g)) Found]
            else
              run_loop g 0
                \<lparr>st_adj = adj, st_queue = q, st_visited = {}, st_parents = Map.empty,
                 st_history = []\<rparr>))"

text \<open>
  \<open>new GraphSearch(...)\<close> either throws or leaves the history of the run in the object. The
  first argument is the arithmetic of the runtime; the others are the constructor's.
\<close>

definition GraphSearch ::
  "float_ops \<Rightarrow> node list \<Rightarrow> edge list \<Rightarrow> nat \<Rightarrow> nat \<Rightarrow> search_type \<Rightarrow> options \<Rightarrow>
   error + snapshot list" where
  "GraphSearch fl ns es startId endId t opts =
     (case buildAdjacency ns es of
        Inl err \<Rightarrow> Inl err
      | Inr adj \<Rightarrow>
          run \<lparr>gs_nodes = ns, gs_edges = es, gs_startId = startId, gs_endId = endId,
               gs_type = t, gs_options = opts, gs_float = fl\<rparr> adj)"

section \<open>Reading a history: getPath and getMetrics\<close>

text \<open>
  The walks below follow a parent map with no bound on their length, so on a cyclic map they
  do not return: the result \<open>None\<close> stands for that.
\<close>

text \<open>
  The loop of the bidirectional branch of \<open>getPath\<close>, which the source comments as
  \<open>From Start -> Intersect\<close>: from the intersection node along the links of the snapshot's one
  parent map, each node put in front of the path, until the start is met.
  \<open>if(!curr) break\<close> leaves the loop at \<open>undefined\<close> and at the id \<open>0\<close> alike.
\<close>

partial_function (option) bi_walk ::
  "(nat \<rightharpoonup> nat) \<Rightarrow> nat \<Rightarrow> nat \<Rightarrow> nat list \<Rightarrow> nat list option" where
  "bi_walk par start cur path =
     (if cur = start then Some path
      else
        (case par cur of
           None \<Rightarrow> Some (cur # path)
         | Some p \<Rightarrow> if p = 0 then Some (cur # path) else bi_walk par start p (cur # path)))"

text \<open>The standard branch: from the end towards the start, in that order.\<close>

partial_function (option) std_walk ::
  "(nat \<rightharpoonup> nat) \<Rightarrow> nat \<Rightarrow> nat option \<Rightarrow> nat list \<Rightarrow> nat list option" where
  "std_walk par start cur path =
     (case cur of
        None \<Rightarrow> Some path
      | Some c \<Rightarrow> if c = start then Some path else std_walk par start (par c) (path @ [c]))"

definition getPath :: "nat \<Rightarrow> nat \<Rightarrow> search_type \<Rightarrow> snapshot \<Rightarrow> nat list option" where
  "getPath startId endId algoType currentStep =
     (if status currentStep \<noteq> Found then Some []
      else
        (case (if algoType = BiBFS then intersect currentStep else None) of
           Some i \<Rightarrow> map_option (\<lambda>path. startId # path) (bi_walk (parents currentStep) startId i [])
         | None \<Rightarrow>
             map_option (\<lambda>path. path @ [startId])
               (std_walk (parents currentStep) startId (Some endId) [])))"

text \<open>\<open>getMetrics\<close> of \<open>getGroundTruth\<close>: the number of edges or the cost of the recorded path.\<close>

datatype metric = Infinity | Finite int

partial_function (option) metrics_loop ::
  "edge list \<Rightarrow> nat \<Rightarrow> (nat \<rightharpoonup> nat) \<Rightarrow> bool \<Rightarrow> nat \<Rightarrow> nat \<Rightarrow> int \<Rightarrow> (error + metric) option" where
  "metrics_loop es startId par isWeighted cur cnt acc =
     (if cur = startId then Some (Inr (Finite (if isWeighted then acc else int cnt)))
      else
        (case par cur of
           None \<Rightarrow> Some (Inr Infinity)
         | Some p \<Rightarrow>
             if isWeighted then
               (case find (\<lambda>e. (source e = p \<and> target e = cur) \<or>
                                (target e = p \<and> source e = cur)) es of
                  None \<Rightarrow> Some (Inl TypeError)
                | Some e \<Rightarrow> metrics_loop es startId par isWeighted p (cnt + 1) (acc + weight e))
             else metrics_loop es startId par isWeighted p (cnt + 1) acc))"

definition getMetrics ::
  "edge list \<Rightarrow> nat \<Rightarrow> nat \<Rightarrow> (nat \<rightharpoonup> nat) option \<Rightarrow> bool \<Rightarrow> (error + metric) option" where
  "getMetrics es startId endId par isWeighted =
     (case par of
        None \<Rightarrow> Some (Inr Infinity)
      | Some m \<Rightarrow> metrics_loop es startId m isWeighted endId 0 0)"

section \<open>PRESETS.nonAdmissible\<close>

definition nonAdmissible_nodes :: "node list" where
  "nonAdmissible_nodes =
     [\<lparr>node_id = 0, node_x = 50, node_y = 300, node_label = ''S'', node_h = Some 5\<rparr>,
      \<lparr>node_id = 1, node_x = 200, node_y = 150, node_label = ''A'', node_h = Some 1000\<rparr>,
      \<lparr>node_id = 2, node_x = 200, node_y = 450, node_label = ''B'', node_h = Some 0\<rparr>,
      \<lparr>node_id = 3, node_x = 400, node_y = 300, node_label = ''C'', node_h = Some 0\<rparr>,
      \<lparr>node_id = 4, node_x = 550, node_y = 300, node_label = ''G'', node_h = Some 0\<rparr>]"

definition nonAdmissible_edges :: "edge list" where
  "nonAdmissible_edges =
     [\<lparr>source = 0, target = 1, weight = 1\<rparr>,
      \<lparr>source = 0, target = 2, weight = 2\<rparr>,
      \<lparr>source = 1, target = 3, weight = 2\<rparr>,
      \<lparr>source = 2, target = 3, weight = 100\<rparr>,
      \<lparr>source = 3, target = 4, weight = 1\<rparr>]"

text \<open>
  What \<open>runAlgorithm\<close> constructs when the \<open>nonAdmissible\<close> preset is loaded, A* is selected and
  duplicate checking is on.
\<close>

definition nonAdmissible_run :: "error + snapshot list" where
  "nonAdmissible_run =
     GraphSearch exact_ops nonAdmissible_nodes nonAdmissible_edges 0 4 AStar
       \<lparr>checkDuplicates = True, heuristicType = Preset\<rparr>"

section \<open>Small graphs used as concrete inputs\<close>

definition plain_node :: "nat \<Rightarrow> real \<Rightarrow> real \<Rightarrow> string \<Rightarrow> node" where
  "plain_node i px py l = \<lparr>node_id = i, node_x = px, node_y = py, node_label = l, node_h = None\<rparr>"

text \<open>Two nodes and no edge.\<close>

definition two_nodes :: "node list" where
  "two_nodes = [plain_node 0 0 0 ''A'', plain_node 1 3 4 ''B'']"

text \<open>The path \<open>A - B - C - D\<close> with unit weights.\<close>

definition path_nodes :: "node list" where
  "path_nodes = [plain_node 0 0 0 ''A'', plain_node 1 10 0 ''B'', plain_node 2 20 0 ''C'',
                 plain_node 3 30 0 ''D'']"

definition path_edges :: "edge list" where
  "path_edges = [\<lparr>source = 0, target = 1, weight = 1\<rparr>, \<lparr>source = 1, target = 2, weight = 1\<rparr>,
                 \<lparr>source = 2, target = 3, weight = 1\<rparr>]"

text \<open>Two adjacent nodes and a third one that no edge reaches.\<close>

definition cycle_nodes :: "node list" where
  "cycle_nodes = [plain_node 0 0 0 ''A'', plain_node 1 10 0 ''B'', plain_node 2 20 0 ''C'']"

definition cycle_edges :: "edge list" where
  "cycle_edges = [\<lparr>source = 0, target = 1, weight = 1\<rparr>]"

definition dup_on :: options where
  "dup_on = \<lparr>checkDuplicates = True, heuristicType = Euclidean\<rparr>"

definition dup_off :: options where
  "dup_off = \<lparr>checkDuplicates = False, heuristicType = Euclidean\<rparr>"

section \<open>Auxiliary notions for the statements\<close>

subsection \<open>One iteration of the shared loop\<close>

text \<open>
  The queue as it is sorted at the top of an iteration, the item the iteration pops, what is left
  of the queue, and the snapshot the iteration records before it pops; \<open>skips\<close> says that the
  popped item is discarded as a duplicate.
\<close>

definition sorted_queue :: "search \<Rightarrow> run_state \<Rightarrow> frontier_item list" where
  "sorted_queue g st =
     (if cost_ordered (gs_type g) then sort_key priority (st_queue st) else st_queue st)"

definition queue_head :: "search \<Rightarrow> run_state \<Rightarrow> frontier_item" where
  "queue_head g st =
     (if gs_type g = DFS then last (sorted_queue g st) else hd (sorted_queue g st))"

definition queue_rest :: "search \<Rightarrow> run_state \<Rightarrow> frontier_item list" where
  "queue_rest g st =
     (if gs_type g = DFS then butlast (sorted_queue g st) else tl (sorted_queue g st))"

definition exploring_snapshot :: "search \<Rightarrow> run_state \<Rightarrow> snapshot" where
  "exploring_snapshot g st =
     snapshot (sorted_queue g st) (st_visited st) (st_parents st)
       (Some (item_id (queue_head g st))) Exploring"

definition skips :: "search \<Rightarrow> run_state \<Rightarrow> bool" where
  "skips g st = (checkDuplicates (gs_options g) \<and> item_id (queue_head g st) \<in> st_visited st)"

text \<open>
  What the loop over the neighbours can do to the queue and to the parents map: it appends items
  for neighbours (none of them visited when duplicate checking is on, none of them the goal for
  BFS and DFS), and it records the popped node as the parent of neighbours.
\<close>

definition grows ::
  "search \<Rightarrow> frontier_item \<Rightarrow> nat set \<Rightarrow> adj_entry list \<Rightarrow>
   frontier_item list \<Rightarrow> (nat \<rightharpoonup> nat) \<Rightarrow> frontier_item list \<Rightarrow> (nat \<rightharpoonup> nat) \<Rightarrow> bool" where
  "grows g cur vis es q par q' par' =
     ((\<exists>new. q' = q @ new \<and>
         (\<forall>it \<in> set new. item_id it \<in> adj_to ` set es \<and>
            (checkDuplicates (gs_options g) \<longrightarrow> item_id it \<notin> vis) \<and>
            (\<not> cost_ordered (gs_type g) \<longrightarrow> item_id it \<noteq> gs_endId g))) \<and>
      (\<forall>k. par' k = par k \<or>
           (par' k = Some (item_id cur) \<and> k \<in> adj_to ` set es \<and>
            (checkDuplicates (gs_options g) \<longrightarrow> k \<notin> vis))))"

text \<open>
  How the loop ends from a state it has reached after \<open>m\<close> iterations: on an empty queue, at
  the iteration bound, or by a return inside the iteration.
\<close>

definition final_outcome :: "search \<Rightarrow> nat \<Rightarrow> run_state \<Rightarrow> snapshot list \<Rightarrow> bool" where
  "final_outcome g m st h =
     (if st_queue st = [] then
        h = st_history st @ [snapshot [] (st_visited st) (st_parents st) None Failed]
      else if MAX_ITERATIONS \<le> m then
        h = st_history st @
              [snapshot (st_queue st) (st_visited st) (st_parents st) None Limit_reached]
      else iteration g st = Inr (Return h))"

subsection \<open>Graphs whose edges name nodes\<close>

text \<open>
  Every entry of the adjacency table names a node of the graph; every edge names nodes of the
  graph.
\<close>

definition adj_closed :: "node list \<Rightarrow> adjacency \<Rightarrow> bool" where
  "adj_closed ns adj = (\<forall>i l. map_of adj i = Some l \<longrightarrow> adj_to ` set l \<subseteq> node_id ` set ns)"

definition edges_ok :: "node list \<Rightarrow> edge list \<Rightarrow> bool" where
  "edges_ok ns es = (\<forall>ed \<in> set es. source ed \<in> node_id ` set ns \<and> target ed \<in> node_id ` set ns)"

subsection \<open>Invariants of the shared loop\<close>

text \<open>
  \<open>bounded_inv\<close>: the history so far is \<open>m\<close> snapshots, all \<open>exploring\<close>. \<open>pop_inv\<close>, for Dijkstra and
  A*: the goal has not been visited and no pop so far was a pop of the goal. \<open>push_inv\<close>, for BFS
  and DFS: the goal is not in the queue, and was in no queue recorded so far.
\<close>

definition bounded_inv :: "search \<Rightarrow> nat \<Rightarrow> run_state \<Rightarrow> bool" where
  "bounded_inv g m st =
     (adj_closed (gs_nodes g) (st_adj st) \<and> length (st_history st) = m \<and>
      m \<le> MAX_ITERATIONS \<and> (\<forall>x \<in> set (st_history st). status x = Exploring))"

definition pop_inv :: "search \<Rightarrow> run_state \<Rightarrow> bool" where
  "pop_inv g st =
     (gs_endId g \<notin> st_visited st \<and>
      (\<forall>x \<in> set (st_history st). status x = Exploring \<and> current x \<noteq> Some (gs_endId g)))"

definition goal_queued :: "nat \<Rightarrow> snapshot \<Rightarrow> bool" where
  "goal_queued e x = (\<exists>it. Item it \<in> set (queue x) \<and> item_id it = e)"

definition push_inv :: "search \<Rightarrow> run_state \<Rightarrow> bool" where
  "push_inv g st =
     (gs_endId g \<notin> item_id ` set (st_queue st) \<and>
      (\<forall>x \<in> set (st_history st). status x = Exploring \<and> \<not> goal_queued (gs_endId g) x))"

subsection \<open>The parents map\<close>

text \<open>
  \<open>justified hist par\<close>: every value of the parents map \<open>par\<close> is the current node of an
  \<open>exploring\<close> snapshot of \<open>hist\<close>. \<open>parents_justified\<close>: the parents of each snapshot are justified by
  the snapshots before it. \<open>start_free\<close>: no snapshot has a parent for the node \<open>s\<close>.
\<close>

definition justified :: "snapshot list \<Rightarrow> (nat \<rightharpoonup> nat) \<Rightarrow> bool" where
  "justified hist par =
     (\<forall>k v. par k = Some v \<longrightarrow> (\<exists>x \<in> set hist. status x = Exploring \<and> current x = Some v))"

definition parents_justified :: "snapshot list \<Rightarrow> bool" where
  "parents_justified hist = (\<forall>i < length hist. justified (take i hist) (parents (hist ! i)))"

definition start_free :: "nat \<Rightarrow> snapshot list \<Rightarrow> bool" where
  "start_free s hist = (\<forall>x \<in> set hist. parents x s = None)"

definition par_inv :: "search \<Rightarrow> run_state \<Rightarrow> bool" where
  "par_inv g st =
     (parents_justified (st_history st) \<and> justified (st_history st) (st_parents st) \<and>
      (checkDuplicates (gs_options g) \<longrightarrow>
         st_parents st (gs_startId g) = None \<and> start_free (gs_startId g) (st_history st) \<and>
         (gs_startId g \<in> st_visited st \<or> map item_id (st_queue st) = [gs_startId g])))"

subsection \<open>The bidirectional loop\<close>

text \<open>
  The adjacency table has an entry from \<open>b\<close> to \<open>a\<close> whenever it has one from \<open>a\<close> to \<open>b\<close>.
\<close>

definition sym_adj :: "adjacency \<Rightarrow> bool" where
  "sym_adj adj =
     (\<forall>a b. b \<in> adj_to ` set (adj_list adj a) \<longrightarrow> a \<in> adj_to ` set (adj_list adj b))"

definition bi_inv :: "adjacency \<Rightarrow> nat \<Rightarrow> bi_state \<Rightarrow> bool" where
  "bi_inv adj s st =
     (parents_justified (bi_history st) \<and>
      justified (bi_history st) (parentStart st) \<and> justified (bi_history st) (parentEnd st) \<and>
      s \<in> visitedStart st \<and> parentStart st s = None \<and> parentEnd st s = None \<and>
      start_free s (bi_history st) \<and>
      (qStart st = [s] \<or> adj_to ` set (adj_list adj s) \<subseteq> visitedStart st))"

text \<open>
  The two snapshots of one pass through the bidirectional loop.
\<close>

definition start_snapshot :: "bi_state \<Rightarrow> snapshot" where
  "start_snapshot st =
     bi_snapshot (tl (qStart st)) (qEnd st) (visitedStart st) (visitedEnd st)
       (parentStart st) (parentEnd st) (hd (qStart st)) StartSide"

definition end_snapshot ::
  "bi_state \<Rightarrow> nat set \<Rightarrow> (nat \<rightharpoonup> nat) \<Rightarrow> nat list \<Rightarrow> snapshot" where
  "end_snapshot st vS1 pS1 qS2 =
     bi_snapshot qS2 (tl (qEnd st)) vS1 (visitedEnd st) pS1 (parentEnd st) (hd (qEnd st)) EndSide"

subsection \<open>A search that reaches the iteration bound\<close>

text \<open>
  The adjacency table of the graph \<open>cycle_nodes\<close>, \<open>cycle_edges\<close>, the search that never finds its
  goal on it, and what every state of that search looks like.
\<close>

definition cycle_adj :: adjacency where
  "cycle_adj = [(0, [\<lparr>adj_to = 1, adj_weight = 1\<rparr>]), (1, [\<lparr>adj_to = 0, adj_weight = 1\<rparr>]),
                (2, [])]"

definition cycle_search :: search where
  "cycle_search = \<lparr>gs_nodes = cycle_nodes, gs_edges = cycle_edges, gs_startId = 0,
                    gs_endId = 2, gs_type = BFS, gs_options = dup_off, gs_float = exact_ops\<rparr>"

definition cycle_inv :: "run_state \<Rightarrow> bool" where
  "cycle_inv st =
     (st_adj st = cycle_adj \<and>
      (\<exists>it. st_queue st = [it] \<and> (item_id it = 0 \<or> item_id it = 1)))"

subsection \<open>Duplicates in the bidirectional search\<close>

text \<open>
  The nodes one side of the bidirectional search has dequeued, in order, read off the history;
  and the invariant that a side's dequeued nodes and its queue never hold a node twice.
\<close>

fun dequeued :: "side \<Rightarrow> snapshot list \<Rightarrow> nat list" where
  "dequeued sd [] = []"
| "dequeued sd (x # xs) =
     (if activeSide x = Some sd
      then (case current x of Some c \<Rightarrow> c # dequeued sd xs | None \<Rightarrow> dequeued sd xs)
      else dequeued sd xs)"

definition dist_inv :: "bi_state \<Rightarrow> bool" where
  "dist_inv st =
     (distinct (dequeued StartSide (bi_history st) @ qStart st) \<and>
      set (dequeued StartSide (bi_history st) @ qStart st) \<subseteq> visitedStart st \<and>
      distinct (dequeued EndSide (bi_history st) @ qEnd st) \<and>
      set (dequeued EndSide (bi_history st) @ qEnd st) \<subseteq> visitedEnd st \<and>
      (\<forall>x \<in> set (bi_history st). distinct (queue x) \<and> status x = Exploring))"

section \<open>Evaluating concrete runs\<close>

lemmas eval_simps = GraphSearch_def buildAdjacency_def init_adj_def add_edge_def
  run_def run_loop.simps iteration_def neighbors_def sort_neighbors_def label_of_def find_node_def
  getHeuristic_def cost_ordered_def MAX_ITERATIONS_def snapshot_def Let_def
  runBiBFS_def runBiBFS_loop.simps bi_iteration_def bi_snapshot_def mark_found_def adj_list_def
  plain_node_def two_nodes_def path_nodes_def path_edges_def dup_on_def dup_off_def
  nonAdmissible_nodes_def nonAdmissible_edges_def nonAdmissible_run_def

section \<open>Construction: which graphs buildAdjacency accepts\<close>

lemma dom_foldl_update:
  "dom (map_of (foldl (\<lambda>adj n. AList.update (node_id n) [] adj) a ns))
   = dom (map_of a) \<union> node_id ` set ns"
  by (induction ns arbitrary: a) (simp_all add: update_conv')

lemma dom_init_adj: "dom (map_of (init_adj ns)) = node_id ` set ns"
  by (simp add: init_adj_def dom_foldl_update)

lemma add_edge_Inl_iff:
  "add_edge adj e = Inl TypeError \<longleftrightarrow>
   source e \<notin> dom (map_of adj) \<or> target e \<notin> dom (map_of adj)"
  by (auto simp: add_edge_def Let_def update_conv' domIff split: option.splits)

lemma add_edge_dom:
  assumes "add_edge adj e = Inr adj'"
  shows "dom (map_of adj') = dom (map_of adj)"
proof -
  from assms obtain l l2 where
    l: "map_of adj (source e) = Some l" and
    l2: "map_of (AList.update (source e) (l @ [\<lparr>adj_to = target e, adj_weight = weight e\<rparr>]) adj)
           (target e) = Some l2" and
    adj': "adj' = AList.update (target e) (l2 @ [\<lparr>adj_to = source e, adj_weight = weight e\<rparr>])
             (AList.update (source e) (l @ [\<lparr>adj_to = target e, adj_weight = weight e\<rparr>]) adj)"
    by (auto simp: add_edge_def Let_def split: option.splits)
  from l have s: "source e \<in> dom (map_of adj)" by blast
  from l2 have "target e \<in> dom (map_of
      (AList.update (source e) (l @ [\<lparr>adj_to = target e, adj_weight = weight e\<rparr>]) adj))"
    by blast
  then have t: "target e \<in> insert (source e) (dom (map_of adj))" by (simp add: update_conv')
  have "dom (map_of adj') = insert (target e) (insert (source e) (dom (map_of adj)))"
    unfolding adj' by (simp add: update_conv')
  with s t show ?thesis by (simp add: insert_absorb)
qed

lemma add_edges_Inl_iff:
  "add_edges adj es = Inl TypeError \<longleftrightarrow>
   (\<exists>e \<in> set es. source e \<notin> dom (map_of adj) \<or> target e \<notin> dom (map_of adj))"
proof (induction es arbitrary: adj)
  case Nil
  then show ?case by simp
next
  case (Cons e es)
  show ?case
  proof (cases "add_edge adj e")
    case (Inl err)
    then have a: "add_edge adj e = Inl TypeError" by (cases err) simp
    then have "source e \<notin> dom (map_of adj) \<or> target e \<notin> dom (map_of adj)"
      by (simp only: add_edge_Inl_iff)
    moreover from a have "add_edges adj (e # es) = Inl TypeError" by simp
    ultimately show ?thesis by auto
  next
    case (Inr adj')
    have "add_edge adj e \<noteq> Inl TypeError" using Inr by simp
    then have ok: "source e \<in> dom (map_of adj) \<and> target e \<in> dom (map_of adj)"
      by (simp only: add_edge_Inl_iff) blast
    have "add_edges adj (e # es) = add_edges adj' es" using Inr by simp
    moreover have "dom (map_of adj') = dom (map_of adj)" using Inr by (rule add_edge_dom)
    ultimately show ?thesis using Cons.IH[of adj'] ok by auto
  qed
qed

lemma buildAdjacency_Inl_iff:
  "buildAdjacency ns es = Inl TypeError \<longleftrightarrow>
   (\<exists>e \<in> set es. source e \<notin> node_id ` set ns \<or> target e \<notin> node_id ` set ns)"
  by (simp add: buildAdjacency_def add_edges_Inl_iff dom_init_adj)

text \<open>
  Claim C7, as amended. An edge that names an id which is not the id of a node makes the
  constructor throw the runtime's TypeError in \<open>buildAdjacency\<close>, before any snapshot exists: no
  edge is dropped and no partial table is used. (The source has no MalformedGraph error of its
  own, and it does not check the start and end ids: see the counterexample below.)
\<close>

theorem malformed_edge_throws:
  "(\<exists>ed \<in> set es. source ed \<notin> node_id ` set ns \<or> target ed \<notin> node_id ` set ns) \<Longrightarrow>
   GraphSearch fl ns es startId endId t opts = Inl TypeError"
  using buildAdjacency_Inl_iff[of ns es] by (simp add: GraphSearch_def)

theorem malformed_edge_throws_witness:
  "(\<exists>ed \<in> set [\<lparr>source = 0, target = 7, weight = 1\<rparr>].
      source ed \<notin> node_id ` set two_nodes \<or> target ed \<notin> node_id ` set two_nodes) \<and>
   GraphSearch exact_ops two_nodes [\<lparr>source = 0, target = 7, weight = 1\<rparr>] 0 1 BFS dup_on = Inl TypeError"
  using malformed_edge_throws[where es = "[\<lparr>source = 0, target = 7, weight = 1\<rparr>]"
      and ns = two_nodes and fl = exact_ops and startId = 0 and endId = 1 and t = BFS
      and opts = dup_on]
  by (simp add: two_nodes_def plain_node_def)

text \<open>
  The claim as stated fails: with a start id that no node has, the run is an ordinary one and
  ends in a \<open>failed\<close> snapshot.
\<close>

theorem absent_start_counterexample:
  "\<not> isl (GraphSearch exact_ops two_nodes [] 5 0 BFS dup_on) \<and>
   map status (projr (GraphSearch exact_ops two_nodes [] 5 0 BFS dup_on)) = [Exploring, Failed]"
  by (simp add: eval_simps)

section \<open>Start equals end\<close>

text \<open>
  Claim C2, as amended. When the start is the end, every strategy records exactly one snapshot,
  with status \<open>found\<close>, the start as current node and no parents; its queue is not empty but
  holds one entry: the seeded start item for BFS, DFS, Dijkstra and A* (whose loop is never
  entered), the end-side entry for the bidirectional search (which dequeues the start once).
\<close>

theorem start_equals_end:
  "buildAdjacency ns es = Inr adj \<Longrightarrow>
   \<exists>snap. GraphSearch fl ns es s s t opts = Inr [snap] \<and> status snap = Found \<and>
          current snap = Some s \<and> parents snap = Map.empty \<and>
          queue snap =
            (if t = BiBFS then [Sided s EndSide]
             else [Item \<lparr>item_id = s, cost = 0, priority = 0, item_h = None, pathLength = 0\<rparr>])"
  by (simp add: GraphSearch_def run_def snapshot_def runBiBFS_def runBiBFS_loop.simps
      bi_iteration_def bi_snapshot_def mark_found_def Let_def)

theorem start_equals_end_witness:
  "buildAdjacency two_nodes [] = Inr [(0, []), (1, [])] \<and>
   (\<exists>snap. GraphSearch exact_ops two_nodes [] 0 0 DFS dup_on = Inr [snap] \<and> status snap = Found \<and>
          current snap = Some 0 \<and> parents snap = Map.empty \<and>
          queue snap =
            [Item \<lparr>item_id = 0, cost = 0, priority = 0, item_h = None, pathLength = 0\<rparr>])"
  using start_equals_end[where ns = two_nodes and es = "[]" and adj = "[(0, []), (1, [])]"
      and fl = exact_ops and s = 0 and t = DFS and opts = dup_on]
  by (simp add: buildAdjacency_def init_adj_def two_nodes_def plain_node_def)

text \<open>The queue of that snapshot is not empty.\<close>

theorem start_equals_end_counterexample:
  "map queue (projr (GraphSearch exact_ops two_nodes [] 0 0 BFS dup_on))
     = [[Item \<lparr>item_id = 0, cost = 0, priority = 0, item_h = None, pathLength = 0\<rparr>]] \<and>
   map queue (projr (GraphSearch exact_ops two_nodes [] 0 0 BFS dup_on)) \<noteq> [[]]"
  by (simp add: eval_simps)

section \<open>The preset heuristic\<close>

text \<open>
  Claim C3, as amended. In preset mode a node without a fixed \<open>h\<close> does not raise an error:
  \<open>getHeuristic\<close> falls through to the default and returns what it returns in Euclidean mode,
  \<open>Math.floor(distance(node, goal))\<close>, whatever the runtime's subtraction and \<open>Math.hypot\<close>
  compute.
\<close>

theorem preset_without_h:
  "heuristicType opts = Preset \<Longrightarrow> find_node ns nodeId = Some n \<Longrightarrow> node_h n = None \<Longrightarrow>
   find_node ns endId = Some g \<Longrightarrow>
   getHeuristic fl ns endId opts nodeId = Inr \<lfloor>distance fl n g\<rfloor> \<and>
   getHeuristic fl ns endId opts nodeId
     = getHeuristic fl ns endId (opts\<lparr>heuristicType := Euclidean\<rparr>) nodeId"
  by (simp add: getHeuristic_def euclidean_def)

theorem preset_without_h_witness:
  "heuristicType \<lparr>checkDuplicates = True, heuristicType = Preset\<rparr> = Preset \<and>
   find_node two_nodes 0 = Some (plain_node 0 0 0 ''A'') \<and>
   node_h (plain_node 0 0 0 ''A'') = None \<and>
   find_node two_nodes 1 = Some (plain_node 1 3 4 ''B'') \<and>
   getHeuristic exact_ops two_nodes 1 \<lparr>checkDuplicates = True, heuristicType = Preset\<rparr> 0
     = Inr \<lfloor>distance exact_ops (plain_node 0 0 0 ''A'') (plain_node 1 3 4 ''B'')\<rfloor> \<and>
   getHeuristic exact_ops two_nodes 1 \<lparr>checkDuplicates = True, heuristicType = Preset\<rparr> 0
     = getHeuristic exact_ops two_nodes 1 \<lparr>checkDuplicates = True, heuristicType = Euclidean\<rparr> 0"
proof -
  have p: "heuristicType \<lparr>checkDuplicates = True, heuristicType = Preset\<rparr> = Preset" by simp
  have a: "find_node two_nodes 0 = Some (plain_node 0 0 0 ''A'')"
    and b: "find_node two_nodes 1 = Some (plain_node 1 3 4 ''B'')"
    by (simp_all add: find_node_def two_nodes_def plain_node_def)
  have n: "node_h (plain_node 0 0 0 ''A'') = None" by (simp add: plain_node_def)
  note t = preset_without_h[where fl = exact_ops, OF p a n b]
  from t have v: "getHeuristic exact_ops two_nodes 1
        \<lparr>checkDuplicates = True, heuristicType = Preset\<rparr> 0
      = Inr \<lfloor>distance exact_ops (plain_node 0 0 0 ''A'') (plain_node 1 3 4 ''B'')\<rfloor>"
    by (rule conjunct1)
  have u: "\<lparr>checkDuplicates = True, heuristicType = Preset\<rparr>\<lparr>heuristicType := Euclidean\<rparr>
           = \<lparr>checkDuplicates = True, heuristicType = Euclidean\<rparr>"
    by simp
  from t[unfolded u] have e: "getHeuristic exact_ops two_nodes 1
        \<lparr>checkDuplicates = True, heuristicType = Preset\<rparr> 0
      = getHeuristic exact_ops two_nodes 1
          \<lparr>checkDuplicates = True, heuristicType = Euclidean\<rparr> 0"
    by (rule conjunct2)
  from p a n b v e show ?thesis by (intro conjI)
qed

text \<open>
  A node at (0, 0) without \<open>h\<close>, the goal at (3, 4), preset mode: the answer is not an error but
  a number, \<open>Math.floor(Math.hypot(0 - 3, 0 - 4))\<close>.
\<close>

theorem preset_without_h_counterexample:
  "getHeuristic exact_ops two_nodes 1 \<lparr>checkDuplicates = True, heuristicType = Preset\<rparr> 0
     \<noteq> Inl TypeError \<and>
   getHeuristic exact_ops two_nodes 1 \<lparr>checkDuplicates = True, heuristicType = Preset\<rparr> 0
     = Inr \<lfloor>fl_hypot exact_ops (fl_sub exact_ops 0 3) (fl_sub exact_ops 0 4)\<rfloor>"
  by (simp add: getHeuristic_def find_node_def two_nodes_def plain_node_def euclidean_def
      distance_def)

section \<open>The nonAdmissible preset\<close>

text \<open>
  Claim C8, as amended. On the \<open>nonAdmissible\<close> preset, A* with duplicate checking reaches
  \<open>found\<close> with the path S, B, C, G (recorded from the goal backwards), which goes through B and
  not through A; its cost is 2 + 100 + 1 = 103, not the optimal 4.
\<close>

theorem nonAdmissible_cost_103:
  "\<not> isl nonAdmissible_run \<and>
   status (last (projr nonAdmissible_run)) = Found \<and>
   getPath 0 4 AStar (last (projr nonAdmissible_run)) = Some [4, 3, 2, 0] \<and>
   getMetrics nonAdmissible_edges 0 4 (Some (parents (last (projr nonAdmissible_run)))) True
     = Some (Inr (Finite 103))"
  by (simp add: eval_simps getPath_def std_walk.simps getMetrics_def metrics_loop.simps)

text \<open>The cost of the path found is not 102.\<close>

theorem nonAdmissible_cost_counterexample:
  "getMetrics nonAdmissible_edges 0 4 (Some (parents (last (projr nonAdmissible_run)))) True
     \<noteq> Some (Inr (Finite 102))"
  by (simp add: eval_simps getMetrics_def metrics_loop.simps)

section \<open>The shared loop: one iteration, and invariants of the whole loop\<close>

lemma sort_key_Nil_iff: "sort_key f xs = [] \<longleftrightarrow> xs = []"
  by (metis length_sort length_0_conv)

lemma sorted_queue_Nil [simp]: "sorted_queue g st = [] \<longleftrightarrow> st_queue st = []"
  by (simp add: sorted_queue_def sort_key_Nil_iff)

lemma iteration_ContinueE:
  assumes "iteration g st = Inr (Continue st')" and "st_queue st \<noteq> []"
  obtains (skip) "skips g st"
      "st' = st\<lparr>st_queue := queue_rest g st,
                st_history := st_history st @ [exploring_snapshot g st]\<rparr>"
  | (expand) adj1 nbrs q3 par3 where "\<not> skips g st"
      "\<not> (cost_ordered (gs_type g) \<and> item_id (queue_head g st) = gs_endId g)"
      "neighbors g (st_adj st) (item_id (queue_head g st)) = Inr (adj1, nbrs)"
      "expand g (queue_head g st) (insert (item_id (queue_head g st)) (st_visited st))
         (st_history st @ [exploring_snapshot g st]) nbrs (queue_rest g st, st_parents st)
       = Inr (Continue (q3, par3))"
      "st' = \<lparr>st_adj = adj1, st_queue = q3,
              st_visited = insert (item_id (queue_head g st)) (st_visited st),
              st_parents = par3, st_history = st_history st @ [exploring_snapshot g st]\<rparr>"
  using assms
  unfolding iteration_def Let_def skips_def exploring_snapshot_def queue_head_def queue_rest_def
    sorted_queue_def
  by (auto split: if_splits sum.splits flow.splits prod.splits)

lemma iteration_ReturnE:
  assumes "iteration g st = Inr (Return h)" and "st_queue st \<noteq> []"
  obtains (pop) "\<not> skips g st" "cost_ordered (gs_type g)"
      "item_id (queue_head g st) = gs_endId g"
      "h = st_history st @ [exploring_snapshot g st,
             snapshot (queue_rest g st) (insert (item_id (queue_head g st)) (st_visited st))
               (st_parents st) (Some (item_id (queue_head g st))) Found]"
  | (push) adj1 nbrs where "\<not> skips g st"
      "\<not> (cost_ordered (gs_type g) \<and> item_id (queue_head g st) = gs_endId g)"
      "neighbors g (st_adj st) (item_id (queue_head g st)) = Inr (adj1, nbrs)"
      "expand g (queue_head g st) (insert (item_id (queue_head g st)) (st_visited st))
         (st_history st @ [exploring_snapshot g st]) nbrs (queue_rest g st, st_parents st)
       = Inr (Return h)"
  using assms
  unfolding iteration_def Let_def skips_def exploring_snapshot_def queue_head_def queue_rest_def
    sorted_queue_def
  by (auto split: if_splits sum.splits flow.splits prod.splits)

lemma grows_refl: "grows g cur vis es q par q par"
  by (simp add: grows_def)

lemma grows_skip: "grows g cur vis es q par q' par' \<Longrightarrow> grows g cur vis (e # es) q par q' par'"
  unfolding grows_def by (elim conjE exE) (rule conjI, force, force)

lemma grows_push:
  assumes "grows g cur vis es (q @ [it]) (par(adj_to e \<mapsto> item_id cur)) q' par'"
    and "item_id it = adj_to e"
    and "checkDuplicates (gs_options g) \<longrightarrow> adj_to e \<notin> vis"
    and "\<not> cost_ordered (gs_type g) \<longrightarrow> adj_to e \<noteq> gs_endId g"
  shows "grows g cur vis (e # es) q par q' par'"
proof -
  from assms(1) obtain new where
    new: "q' = (q @ [it]) @ new"
      "\<forall>x \<in> set new. item_id x \<in> adj_to ` set es \<and>
          (checkDuplicates (gs_options g) \<longrightarrow> item_id x \<notin> vis) \<and>
          (\<not> cost_ordered (gs_type g) \<longrightarrow> item_id x \<noteq> gs_endId g)"
    and par: "\<forall>k. par' k = (par(adj_to e \<mapsto> item_id cur)) k \<or>
          (par' k = Some (item_id cur) \<and> k \<in> adj_to ` set es \<and>
           (checkDuplicates (gs_options g) \<longrightarrow> k \<notin> vis))"
    unfolding grows_def by blast
  have "q' = q @ (it # new)" using new(1) by simp
  moreover have "\<forall>x \<in> set (it # new). item_id x \<in> adj_to ` set (e # es) \<and>
          (checkDuplicates (gs_options g) \<longrightarrow> item_id x \<notin> vis) \<and>
          (\<not> cost_ordered (gs_type g) \<longrightarrow> item_id x \<noteq> gs_endId g)"
    using new(2) assms(2,3,4) by auto
  moreover have "\<forall>k. par' k = par k \<or>
          (par' k = Some (item_id cur) \<and> k \<in> adj_to ` set (e # es) \<and>
           (checkDuplicates (gs_options g) \<longrightarrow> k \<notin> vis))"
  proof
    fix k
    show "par' k = par k \<or>
          (par' k = Some (item_id cur) \<and> k \<in> adj_to ` set (e # es) \<and>
           (checkDuplicates (gs_options g) \<longrightarrow> k \<notin> vis))"
      using par[rule_format, of k] assms(3) by (cases "k = adj_to e") auto
  qed
  ultimately show ?thesis unfolding grows_def by blast
qed

lemma expand_push_step:
  assumes "\<not> (checkDuplicates (gs_options g) \<and>
              (adj_to e \<in> vis \<or> (\<exists>it \<in> set q. item_id it = adj_to e)))"
    and "\<not> (\<not> cost_ordered (gs_type g) \<and> adj_to e = gs_endId g)"
    and "expand g cur vis hist (e # es) (q, par) = Inr r"
  shows "\<exists>it. item_id it = adj_to e \<and>
              expand g cur vis hist es (q @ [it], par(adj_to e \<mapsto> item_id cur)) = Inr r"
proof (cases "gs_type g = AStar")
  case True
  show ?thesis
  proof (cases "getHeuristic (gs_float g) (gs_nodes g) (gs_endId g) (gs_options g) (adj_to e)")
    case (Inl err)
    with True assms show ?thesis by (auto simp: Let_def)
  next
    case (Inr hv)
    with True assms have
      "expand g cur vis hist es
         (q @ [\<lparr>item_id = adj_to e, cost = cost cur + adj_weight e,
                priority = cost cur + adj_weight e + hv, item_h = Some hv,
                pathLength = pathLength cur + 1\<rparr>], par(adj_to e \<mapsto> item_id cur)) = Inr r"
      by (auto simp: Let_def)
    then show ?thesis
      by (intro exI[of _ "\<lparr>item_id = adj_to e, cost = cost cur + adj_weight e,
                priority = cost cur + adj_weight e + hv, item_h = Some hv,
                pathLength = pathLength cur + 1\<rparr>"]) simp
  qed
next
  case False
  with assms have
      "expand g cur vis hist es
         (q @ [\<lparr>item_id = adj_to e, cost = cost cur + adj_weight e,
                priority = cost cur + adj_weight e + 0, item_h = Some 0,
                pathLength = pathLength cur + 1\<rparr>], par(adj_to e \<mapsto> item_id cur)) = Inr r"
    by (auto simp: Let_def)
  then show ?thesis
    by (intro exI[of _ "\<lparr>item_id = adj_to e, cost = cost cur + adj_weight e,
                priority = cost cur + adj_weight e + 0, item_h = Some 0,
                pathLength = pathLength cur + 1\<rparr>"]) simp
qed

lemma expand_Continue:
  "expand g cur vis hist es (q, par) = Inr (Continue (q', par')) \<Longrightarrow>
   grows g cur vis es q par q' par'"
proof (induction es arbitrary: q par)
  case Nil
  then show ?case by (simp add: grows_refl)
next
  case (Cons e es)
  show ?case
  proof (cases "checkDuplicates (gs_options g) \<and>
                (adj_to e \<in> vis \<or> (\<exists>it \<in> set q. item_id it = adj_to e))")
    case True
    with Cons.prems have "expand g cur vis hist es (q, par) = Inr (Continue (q', par'))"
      by (simp add: Let_def)
    from Cons.IH[OF this] show ?thesis by (rule grows_skip)
  next
    case False
    have ng: "\<not> (\<not> cost_ordered (gs_type g) \<and> adj_to e = gs_endId g)"
      using False Cons.prems by (auto simp: Let_def)
    from expand_push_step[OF False ng Cons.prems] obtain it where
      it: "item_id it = adj_to e" and
      rec: "expand g cur vis hist es (q @ [it], par(adj_to e \<mapsto> item_id cur))
            = Inr (Continue (q', par'))"
      by blast
    from Cons.IH[OF rec] show ?thesis
      by (rule grows_push) (use False ng it in auto)
  qed
qed

lemma expand_Return:
  "expand g cur vis hist es (q, par) = Inr (Return h) \<Longrightarrow>
   \<not> cost_ordered (gs_type g) \<and>
   (\<exists>q' par' it. h = hist @ [snapshot (q' @ [it]) vis par' (Some (gs_endId g)) Found] \<and>
      item_id it = gs_endId g \<and> par' (gs_endId g) = Some (item_id cur) \<and>
      grows g cur vis es q par q' par')"
proof (induction es arbitrary: q par)
  case Nil
  then show ?case by simp
next
  case (Cons e es)
  show ?case
  proof (cases "checkDuplicates (gs_options g) \<and>
                (adj_to e \<in> vis \<or> (\<exists>it \<in> set q. item_id it = adj_to e))")
    case True
    with Cons.prems have "expand g cur vis hist es (q, par) = Inr (Return h)"
      by (simp add: Let_def)
    from Cons.IH[OF this] show ?thesis by (blast intro: grows_skip)
  next
    case False
    show ?thesis
    proof (cases "\<not> cost_ordered (gs_type g) \<and> adj_to e = gs_endId g")
      case True
      with False Cons.prems have
        "h = hist @ [snapshot
               (q @ [\<lparr>item_id = adj_to e, cost = cost cur + adj_weight e, priority = 0,
                      item_h = None, pathLength = pathLength cur + 1\<rparr>])
               vis (par(adj_to e \<mapsto> item_id cur)) (Some (adj_to e)) Found]"
        by (auto simp: Let_def)
      moreover have "grows g cur vis (e # es) q par q (par(adj_to e \<mapsto> item_id cur))"
        unfolding grows_def using False by auto
      ultimately show ?thesis using True by force
    next
      case ng: False
      from expand_push_step[OF False ng Cons.prems] obtain it0 where
        it0: "item_id it0 = adj_to e" and
        rec: "expand g cur vis hist es (q @ [it0], par(adj_to e \<mapsto> item_id cur))
              = Inr (Return h)"
        by blast
      from Cons.IH[OF rec] obtain q' par' it where
        r: "\<not> cost_ordered (gs_type g)"
           "h = hist @ [snapshot (q' @ [it]) vis par' (Some (gs_endId g)) Found]"
           "item_id it = gs_endId g" "par' (gs_endId g) = Some (item_id cur)"
           "grows g cur vis es (q @ [it0]) (par(adj_to e \<mapsto> item_id cur)) q' par'"
        by blast
      have "grows g cur vis (e # es) q par q' par'"
        by (rule grows_push[OF r(5)]) (use False ng it0 in auto)
      with r show ?thesis by blast
    qed
  qed
qed

lemma run_loop_final:
  assumes "run_loop g n st = Inr h" and "I n st"
    and "\<And>m a b. I m a \<Longrightarrow> st_queue a \<noteq> [] \<Longrightarrow> m < MAX_ITERATIONS \<Longrightarrow>
                 iteration g a = Inr (Continue b) \<Longrightarrow> I (Suc m) b"
  shows "\<exists>m st'. I m st' \<and> final_outcome g m st' h"
  using assms
proof (induction g n st rule: run_loop.induct)
  case (1 g n st)
  note step = "1.prems"(3)
  show ?case
  proof (cases "st_queue st = []")
    case True
    with "1.prems"(1) have "final_outcome g n st h"
      by (simp add: run_loop.simps final_outcome_def)
    with "1.prems"(2) show ?thesis by blast
  next
    case ne: False
    show ?thesis
    proof (cases "MAX_ITERATIONS \<le> n")
      case True
      with ne "1.prems"(1) have "final_outcome g n st h"
        by (simp add: run_loop.simps final_outcome_def)
      with "1.prems"(2) show ?thesis by blast
    next
      case lt: False
      show ?thesis
      proof (cases "iteration g st")
        case (Inl err)
        with ne lt "1.prems"(1) show ?thesis by (simp add: run_loop.simps)
      next
        case (Inr fl)
        show ?thesis
        proof (cases fl)
          case (Return h')
          with Inr ne lt "1.prems"(1) have "final_outcome g n st h"
            by (simp add: run_loop.simps final_outcome_def)
          with "1.prems"(2) show ?thesis by blast
        next
          case (Continue st')
          with Inr ne lt "1.prems"(1) have r: "run_loop g (n + 1) st' = Inr h"
            by (simp add: run_loop.simps)
          have "n < MAX_ITERATIONS" using lt by simp
          then have "I (Suc n) st'"
            by (rule step[OF "1.prems"(2) ne]) (simp add: Inr Continue)
          then have i: "I (n + 1) st'" by simp
          have nlt: "\<not> MAX_ITERATIONS < n + 1" using lt by simp
          from "1.IH"[OF ne nlt Inr Continue r i step] show ?thesis by simp
        qed
      qed
    qed
  qed
qed

lemma run_loop_total:
  assumes "I n st"
    and "\<And>m a b. I m a \<Longrightarrow> st_queue a \<noteq> [] \<Longrightarrow> m < MAX_ITERATIONS \<Longrightarrow>
                 iteration g a = Inr (Continue b) \<Longrightarrow> I (Suc m) b"
    and "\<And>m a err. I m a \<Longrightarrow> st_queue a \<noteq> [] \<Longrightarrow> iteration g a \<noteq> Inl err"
  shows "\<exists>h. run_loop g n st = Inr h"
  using assms
proof (induction g n st rule: run_loop.induct)
  case (1 g n st)
  note step = "1.prems"(2) and safe = "1.prems"(3)
  show ?case
  proof (cases "st_queue st = [] \<or> MAX_ITERATIONS \<le> n")
    case True
    then show ?thesis by (auto simp: run_loop.simps)
  next
    case False
    then have ne: "st_queue st \<noteq> []" and lt: "\<not> n + 1 > MAX_ITERATIONS" by auto
    show ?thesis
    proof (cases "iteration g st")
      case (Inl err)
      with safe[OF "1.prems"(1) ne, of err] show ?thesis by blast
    next
      case (Inr fl)
      show ?thesis
      proof (cases fl)
        case (Return h')
        with Inr ne lt show ?thesis by (simp add: run_loop.simps)
      next
        case (Continue st')
        have "n < MAX_ITERATIONS" using lt by simp
        then have "I (Suc n) st'"
          by (rule step[OF "1.prems"(1) ne]) (simp add: Inr Continue)
        then have "I (n + 1) st'" by simp
        then have "\<exists>h. run_loop g (n + 1) st' = Inr h"
        proof (rule "1.IH"[OF ne lt Inr Continue])
          show "\<And>m a b. I m a \<Longrightarrow> st_queue a \<noteq> [] \<Longrightarrow> m < MAX_ITERATIONS \<Longrightarrow>
                 iteration g a = Inr (Continue b) \<Longrightarrow> I (Suc m) b"
            by (rule step)
          show "\<And>m a err. I m a \<Longrightarrow> st_queue a \<noteq> [] \<Longrightarrow> iteration g a \<noteq> Inl err"
            by (rule safe)
        qed
        with Inr Continue ne lt show ?thesis by (simp add: run_loop.simps)
      qed
    qed
  qed
qed

section \<open>Termination within the iteration bound\<close>

lemma find_node_None_iff: "find_node ns i = None \<longleftrightarrow> i \<notin> node_id ` set ns"
  by (auto simp: find_node_def find_None_iff)

lemma map_of_foldl_update_empty:
  "map_of (foldl (\<lambda>adj n. AList.update (node_id n) [] adj) a ns) i = Some l \<Longrightarrow>
   l = [] \<or> map_of a i = Some l"
proof (induction ns arbitrary: a)
  case Nil
  then show ?case by simp
next
  case (Cons n ns)
  from Cons.prems have
    "map_of (foldl (\<lambda>adj n. AList.update (node_id n) [] adj)
       (AList.update (node_id n) [] a) ns) i = Some l" by simp
  from Cons.IH[OF this] have "l = [] \<or> map_of (AList.update (node_id n) [] a) i = Some l" .
  then show ?case by (auto simp: update_conv' split: if_splits)
qed

lemma adj_closed_init: "adj_closed ns (init_adj ns')"
  unfolding adj_closed_def init_adj_def
  using map_of_foldl_update_empty[of "[]" ns'] by fastforce

lemma add_edge_closed:
  assumes "add_edge adj e = Inr adj'" and "adj_closed ns adj"
    and "source e \<in> node_id ` set ns" and "target e \<in> node_id ` set ns"
  shows "adj_closed ns adj'"
proof -
  from assms(1) obtain l l2 where
    l: "map_of adj (source e) = Some l" and
    l2: "map_of (AList.update (source e) (l @ [\<lparr>adj_to = target e, adj_weight = weight e\<rparr>]) adj)
           (target e) = Some l2" and
    adj': "adj' = AList.update (target e) (l2 @ [\<lparr>adj_to = source e, adj_weight = weight e\<rparr>])
             (AList.update (source e) (l @ [\<lparr>adj_to = target e, adj_weight = weight e\<rparr>]) adj)"
    by (auto simp: add_edge_def Let_def split: option.splits)
  let ?adj1 = "AList.update (source e) (l @ [\<lparr>adj_to = target e, adj_weight = weight e\<rparr>]) adj"
  have c1: "adj_closed ns ?adj1"
    unfolding adj_closed_def
  proof (intro allI impI)
    fix i m assume "map_of ?adj1 i = Some m"
    then have "m = l @ [\<lparr>adj_to = target e, adj_weight = weight e\<rparr>] \<or> map_of adj i = Some m"
      by (auto simp: update_conv' split: if_splits)
    moreover from assms(2) l have "adj_to ` set l \<subseteq> node_id ` set ns"
      unfolding adj_closed_def by blast
    then have "adj_to ` set (l @ [\<lparr>adj_to = target e, adj_weight = weight e\<rparr>])
                 \<subseteq> node_id ` set ns"
      using assms(4) by simp
    moreover have "map_of adj i = Some m \<Longrightarrow> adj_to ` set m \<subseteq> node_id ` set ns"
      using assms(2) unfolding adj_closed_def by blast
    ultimately show "adj_to ` set m \<subseteq> node_id ` set ns" by blast
  qed
  show ?thesis
    unfolding adj_closed_def
  proof (intro allI impI)
    fix i m assume "map_of adj' i = Some m"
    then have "m = l2 @ [\<lparr>adj_to = source e, adj_weight = weight e\<rparr>] \<or> map_of ?adj1 i = Some m"
      unfolding adj' by (auto simp: update_conv' split: if_splits)
    moreover from c1 l2 have "adj_to ` set l2 \<subseteq> node_id ` set ns"
      unfolding adj_closed_def by blast
    then have "adj_to ` set (l2 @ [\<lparr>adj_to = source e, adj_weight = weight e\<rparr>])
                 \<subseteq> node_id ` set ns"
      using assms(3) by simp
    moreover have "map_of ?adj1 i = Some m \<Longrightarrow> adj_to ` set m \<subseteq> node_id ` set ns"
      using c1 unfolding adj_closed_def by blast
    ultimately show "adj_to ` set m \<subseteq> node_id ` set ns" by blast
  qed
qed

lemma add_edges_closed:
  "add_edges adj es = Inr adj' \<Longrightarrow> adj_closed ns adj \<Longrightarrow> edges_ok ns es \<Longrightarrow> adj_closed ns adj'"
proof (induction es arbitrary: adj)
  case Nil
  then show ?case by simp
next
  case (Cons e es)
  from Cons.prems(1) obtain adj1 where a: "add_edge adj e = Inr adj1"
    and r: "add_edges adj1 es = Inr adj'"
    by (auto split: sum.splits)
  from Cons.prems(3) have e: "source e \<in> node_id ` set ns" "target e \<in> node_id ` set ns"
    and es: "edges_ok ns es" by (auto simp: edges_ok_def)
  from add_edge_closed[OF a Cons.prems(2) e] have "adj_closed ns adj1" .
  from Cons.IH[OF r this es] show ?case .
qed

lemma buildAdjacency_ok:
  assumes "edges_ok ns es"
  shows "\<exists>adj. buildAdjacency ns es = Inr adj \<and> adj_closed ns adj"
proof (cases "buildAdjacency ns es")
  case (Inl err)
  then have "buildAdjacency ns es = Inl TypeError" by (cases err) simp
  with assms show ?thesis by (auto simp: buildAdjacency_Inl_iff edges_ok_def)
next
  case (Inr adj)
  then have "add_edges (init_adj ns) es = Inr adj" by (simp add: buildAdjacency_def)
  from add_edges_closed[OF this adj_closed_init assms] Inr show ?thesis by simp
qed

lemma buildAdjacency_closed:
  assumes "buildAdjacency ns es = Inr adj"
  shows "adj_closed ns adj"
proof -
  have "buildAdjacency ns es \<noteq> Inl TypeError" using assms by simp
  then have "edges_ok ns es" by (auto simp: buildAdjacency_Inl_iff edges_ok_def)
  from buildAdjacency_ok[OF this] assms show ?thesis by simp
qed

lemma neighbors_closed:
  assumes "adj_closed (gs_nodes g) adj"
  shows "\<exists>adj1 nbrs. neighbors g adj i = Inr (adj1, nbrs) \<and> adj_closed (gs_nodes g) adj1 \<and>
           adj_to ` set nbrs \<subseteq> node_id ` set (gs_nodes g)"
proof (cases "map_of adj i")
  case None
  with assms show ?thesis by (simp add: neighbors_def)
next
  case (Some l)
  with assms have l: "adj_to ` set l \<subseteq> node_id ` set (gs_nodes g)"
    unfolding adj_closed_def by blast
  then have "\<not> (\<exists>a \<in> set l. find_node (gs_nodes g) (adj_to a) = None)"
    by (auto simp: find_node_None_iff)
  then have s: "sort_neighbors (gs_nodes g) l
             = Inr (sort_key (\<lambda>a. label_of (gs_nodes g) (adj_to a)) l)"
    by (simp add: sort_neighbors_def)
  define s' where "s' = (if gs_type g = DFS
      then rev (sort_key (\<lambda>a. label_of (gs_nodes g) (adj_to a)) l)
      else sort_key (\<lambda>a. label_of (gs_nodes g) (adj_to a)) l)"
  have set: "set s' = set l" by (simp add: s'_def)
  have n: "neighbors g adj i = Inr (AList.update i s' adj, s')"
    using Some s by (simp add: neighbors_def s'_def Let_def)
  have "adj_closed (gs_nodes g) (AList.update i s' adj)"
    unfolding adj_closed_def
  proof (intro allI impI)
    fix j m assume "map_of (AList.update i s' adj) j = Some m"
    then have "m = s' \<or> map_of adj j = Some m"
      by (auto simp: update_conv' split: if_splits)
    moreover have "map_of adj j = Some m \<Longrightarrow> adj_to ` set m \<subseteq> node_id ` set (gs_nodes g)"
      using assms unfolding adj_closed_def by blast
    moreover have "adj_to ` set s' \<subseteq> node_id ` set (gs_nodes g)"
      using l set by simp
    ultimately show "adj_to ` set m \<subseteq> node_id ` set (gs_nodes g)" by blast
  qed
  with n l set show ?thesis by simp
qed

lemma getHeuristic_ok:
  assumes "i \<in> node_id ` set ns" and "e \<in> node_id ` set ns"
  shows "\<exists>v. getHeuristic fl ns e opts i = Inr v"
proof -
  from assms obtain n gl where "find_node ns i = Some n" "find_node ns e = Some gl"
    using find_node_None_iff[of ns i] find_node_None_iff[of ns e] by auto
  then show ?thesis
    by (simp add: getHeuristic_def euclidean_def Let_def split: option.splits)
qed

lemma expand_ok:
  assumes "adj_to ` set es \<subseteq> node_id ` set (gs_nodes g)"
    and "gs_type g = AStar \<longrightarrow> gs_endId g \<in> node_id ` set (gs_nodes g)"
  shows "expand g cur vis hist es (q, par) \<noteq> Inl err"
  using assms(1)
proof (induction es arbitrary: q par)
  case Nil
  then show ?case by simp
next
  case (Cons e es)
  from Cons.prems have sub: "adj_to ` set es \<subseteq> node_id ` set (gs_nodes g)"
    and e: "adj_to e \<in> node_id ` set (gs_nodes g)" by auto
  have h: "gs_type g = AStar \<Longrightarrow>
        \<exists>v. getHeuristic (gs_float g) (gs_nodes g) (gs_endId g) (gs_options g) (adj_to e) = Inr v"
    using getHeuristic_ok[OF e] assms(2) by blast
  show ?case
  proof (cases "gs_type g = AStar")
    case True
    from h[OF True] obtain v where
      "getHeuristic (gs_float g) (gs_nodes g) (gs_endId g) (gs_options g) (adj_to e) = Inr v" ..
    with True Cons.IH[OF sub] show ?thesis by (simp add: Let_def)
  next
    case False
    with Cons.IH[OF sub] show ?thesis by (simp add: Let_def)
  qed
qed

lemma iteration_ok:
  assumes "adj_closed (gs_nodes g) (st_adj st)" and "st_queue st \<noteq> []"
    and "gs_type g = AStar \<longrightarrow> gs_endId g \<in> node_id ` set (gs_nodes g)"
  shows "iteration g st \<noteq> Inl err"
proof -
  from neighbors_closed[OF assms(1), of "item_id (queue_head g st)"] obtain adj1 nbrs where
    n: "neighbors g (st_adj st) (item_id (queue_head g st)) = Inr (adj1, nbrs)"
    and sub: "adj_to ` set nbrs \<subseteq> node_id ` set (gs_nodes g)" by blast
  have q: "sorted_queue g st \<noteq> []" using assms(2) by simp
  have ex: "expand g (queue_head g st) (insert (item_id (queue_head g st)) (st_visited st))
         (st_history st @ [exploring_snapshot g st]) nbrs (queue_rest g st, st_parents st)
        \<noteq> Inl err"
    by (rule expand_ok[OF sub assms(3)])
  show ?thesis
    using q n ex
    unfolding iteration_def Let_def exploring_snapshot_def queue_head_def queue_rest_def
      sorted_queue_def
    by (auto split: sum.splits flow.splits prod.splits)
qed

lemma iteration_closed:
  assumes "iteration g st = Inr (Continue st')" and "st_queue st \<noteq> []"
    and "adj_closed (gs_nodes g) (st_adj st)"
  shows "adj_closed (gs_nodes g) (st_adj st')"
  using assms(1,2)
proof (cases rule: iteration_ContinueE)
  case skip
  with assms(3) show ?thesis by simp
next
  case (expand adj1 nbrs q3 par3)
  from neighbors_closed[OF assms(3), of "item_id (queue_head g st)"] expand(3,5)
  show ?thesis by auto
qed

lemma iteration_Continue_history:
  assumes "iteration g st = Inr (Continue st')" and "st_queue st \<noteq> []"
  shows "st_history st' = st_history st @ [exploring_snapshot g st]"
  using assms by (cases rule: iteration_ContinueE) simp_all

lemma iteration_Return_history:
  assumes "iteration g st = Inr (Return h)" and "st_queue st \<noteq> []"
  shows "\<exists>l. h = st_history st @ [exploring_snapshot g st, l] \<and> status l = Found"
  using assms
proof (cases rule: iteration_ReturnE)
  case pop
  then show ?thesis by (simp add: snapshot_def)
next
  case (push adj1 nbrs)
  from expand_Return[OF push(4)] show ?thesis by (auto simp: snapshot_def)
qed

lemma status_exploring_snapshot [simp]: "status (exploring_snapshot g st) = Exploring"
  by (simp add: exploring_snapshot_def snapshot_def)

lemma bounded_inv_step:
  assumes "bounded_inv g m a" and "st_queue a \<noteq> []" and "m < MAX_ITERATIONS"
    and "iteration g a = Inr (Continue b)"
  shows "bounded_inv g (Suc m) b"
  using assms iteration_closed[OF assms(4,2)] iteration_Continue_history[OF assms(4,2)]
  by (auto simp: bounded_inv_def)

lemma run_loop_bounded:
  assumes "adj_closed (gs_nodes g) adj"
    and "gs_type g = AStar \<longrightarrow> gs_endId g \<in> node_id ` set (gs_nodes g)"
  shows "\<exists>ex l. run_loop g 0 \<lparr>st_adj = adj, st_queue = q, st_visited = v, st_parents = p,
                   st_history = []\<rparr> = Inr (ex @ [l]) \<and>
           (\<forall>x \<in> set ex. status x = Exploring) \<and> length ex \<le> MAX_ITERATIONS \<and>
           status l \<in> {Found, Failed, Limit_reached} \<and>
           (status l = Limit_reached \<longrightarrow> length ex = MAX_ITERATIONS)"
proof -
  let ?st = "\<lparr>st_adj = adj, st_queue = q, st_visited = v, st_parents = p, st_history = []\<rparr>"
  have i0: "bounded_inv g 0 ?st" using assms(1) by (simp add: bounded_inv_def)
  have "\<exists>h. run_loop g 0 ?st = Inr h"
  proof (rule run_loop_total[where I = "bounded_inv g", OF i0])
    show "\<And>m a b. bounded_inv g m a \<Longrightarrow> st_queue a \<noteq> [] \<Longrightarrow> m < MAX_ITERATIONS \<Longrightarrow>
           iteration g a = Inr (Continue b) \<Longrightarrow> bounded_inv g (Suc m) b"
      by (rule bounded_inv_step)
    show "\<And>m a err. bounded_inv g m a \<Longrightarrow> st_queue a \<noteq> [] \<Longrightarrow> iteration g a \<noteq> Inl err"
    proof -
      fix m a err assume "bounded_inv g m a" and ne: "st_queue a \<noteq> []"
      then have "adj_closed (gs_nodes g) (st_adj a)" by (simp add: bounded_inv_def)
      then show "iteration g a \<noteq> Inl err" using ne assms(2) by (rule iteration_ok)
    qed
  qed
  then obtain h where h: "run_loop g 0 ?st = Inr h" ..
  have "\<exists>m st'. bounded_inv g m st' \<and> final_outcome g m st' h"
  proof (rule run_loop_final[where I = "bounded_inv g", OF h i0])
    show "\<And>m a b. bounded_inv g m a \<Longrightarrow> st_queue a \<noteq> [] \<Longrightarrow> m < MAX_ITERATIONS \<Longrightarrow>
           iteration g a = Inr (Continue b) \<Longrightarrow> bounded_inv g (Suc m) b"
      by (rule bounded_inv_step)
  qed
  then obtain m st' where inv: "bounded_inv g m st'" and fin: "final_outcome g m st' h" by blast
  from inv have len: "length (st_history st') = m" and le: "m \<le> MAX_ITERATIONS"
    and ex: "\<forall>x \<in> set (st_history st'). status x = Exploring"
    by (auto simp: bounded_inv_def)
  consider (failed) "st_queue st' = []"
      "h = st_history st' @ [snapshot [] (st_visited st') (st_parents st') None Failed]"
    | (limit) "st_queue st' \<noteq> []" "MAX_ITERATIONS \<le> m"
      "h = st_history st' @
             [snapshot (st_queue st') (st_visited st') (st_parents st') None Limit_reached]"
    | (return) "st_queue st' \<noteq> []" "m < MAX_ITERATIONS" "iteration g st' = Inr (Return h)"
    using fin by (auto simp: final_outcome_def split: if_splits)
  then have "\<exists>ex l. h = ex @ [l] \<and>
           (\<forall>x \<in> set ex. status x = Exploring) \<and> length ex \<le> MAX_ITERATIONS \<and>
           status l \<in> {Found, Failed, Limit_reached} \<and>
           (status l = Limit_reached \<longrightarrow> length ex = MAX_ITERATIONS)"
  proof cases
    case failed
    with len le ex show ?thesis
      by (intro exI[of _ "st_history st'"] exI[of _ "snapshot [] (st_visited st') (st_parents st') None Failed"])
         (simp add: snapshot_def)
  next
    case limit
    with len le ex show ?thesis
      by (intro exI[of _ "st_history st'"]
            exI[of _ "snapshot (st_queue st') (st_visited st') (st_parents st') None Limit_reached"])
         (simp add: snapshot_def)
  next
    case return
    from iteration_Return_history[OF return(3,1)] obtain l where
      l: "h = st_history st' @ [exploring_snapshot g st', l]" "status l = Found" by blast
    with len le ex return(2) show ?thesis
      by (intro exI[of _ "st_history st' @ [exploring_snapshot g st']"] exI[of _ l]) auto
  qed
  with h show ?thesis by simp
qed

text \<open>
  Claim C5. A run of BFS, DFS, Dijkstra or A* on a graph whose edges name nodes of the graph
  (and, for A*, whose end id is a node) always returns a history and never throws: at most
  \<open>MAX_ITERATIONS = 1000\<close> snapshots with status \<open>exploring\<close>, one for each pop, followed by exactly
  one terminal snapshot. When the loop is entered with the count at the bound and a non-empty
  queue it records \<open>limit_reached\<close> and returns, and \<open>limit_reached\<close> is recorded only after
  exactly 1000 pops.
\<close>

theorem iteration_limit:
  assumes "t \<noteq> BiBFS"
    and "\<forall>ed \<in> set es. source ed \<in> node_id ` set ns \<and> target ed \<in> node_id ` set ns"
    and "t = AStar \<longrightarrow> endId \<in> node_id ` set ns"
  shows "MAX_ITERATIONS = 1000 \<and>
         (\<forall>g st. st_queue st \<noteq> [] \<longrightarrow>
            run_loop g MAX_ITERATIONS st =
              Inr (st_history st @
                [snapshot (st_queue st) (st_visited st) (st_parents st) None Limit_reached])) \<and>
         (\<exists>ex l. GraphSearch fl ns es startId endId t opts = Inr (ex @ [l]) \<and>
            (\<forall>x \<in> set ex. status x = Exploring) \<and> length ex \<le> MAX_ITERATIONS \<and>
            status l \<in> {Found, Failed, Limit_reached} \<and>
            (status l = Limit_reached \<longrightarrow> length ex = MAX_ITERATIONS))"
proof (intro conjI)
  show "MAX_ITERATIONS = 1000" by (simp add: MAX_ITERATIONS_def)
  show "\<forall>g st. st_queue st \<noteq> [] \<longrightarrow>
            run_loop g MAX_ITERATIONS st =
              Inr (st_history st @
                [snapshot (st_queue st) (st_visited st) (st_parents st) None Limit_reached])"
    by (simp add: run_loop.simps)
  from assms(2) have "edges_ok ns es" by (simp add: edges_ok_def)
  from buildAdjacency_ok[OF this] obtain adj where
    adj: "buildAdjacency ns es = Inr adj" "adj_closed ns adj" by blast
  let ?g = "\<lparr>gs_nodes = ns, gs_edges = es, gs_startId = startId, gs_endId = endId,
             gs_type = t, gs_options = opts, gs_float = fl\<rparr>"
  show "\<exists>ex l. GraphSearch fl ns es startId endId t opts = Inr (ex @ [l]) \<and>
            (\<forall>x \<in> set ex. status x = Exploring) \<and> length ex \<le> MAX_ITERATIONS \<and>
            status l \<in> {Found, Failed, Limit_reached} \<and>
            (status l = Limit_reached \<longrightarrow> length ex = MAX_ITERATIONS)"
  proof (cases "startId = endId")
    case True
    with adj assms(1) have "GraphSearch fl ns es startId endId t opts
        = Inr ([] @ [snapshot [\<lparr>item_id = startId, cost = 0, priority = 0, item_h = None,
                   pathLength = 0\<rparr>] {} Map.empty (Some startId) Found])"
      by (simp add: GraphSearch_def run_def)
    then show ?thesis by (intro exI conjI, assumption) (simp_all add: snapshot_def)
  next
    case False
    have "adj_closed (gs_nodes ?g) adj" using adj(2) by simp
    moreover have "gs_type ?g = AStar \<longrightarrow> gs_endId ?g \<in> node_id ` set (gs_nodes ?g)"
      using assms(3) by simp
    ultimately have "\<exists>ex l. run_loop ?g 0 \<lparr>st_adj = adj,
          st_queue = [\<lparr>item_id = startId, cost = 0, priority = 0, item_h = None, pathLength = 0\<rparr>],
          st_visited = {}, st_parents = Map.empty, st_history = []\<rparr> = Inr (ex @ [l]) \<and>
           (\<forall>x \<in> set ex. status x = Exploring) \<and> length ex \<le> MAX_ITERATIONS \<and>
           status l \<in> {Found, Failed, Limit_reached} \<and>
           (status l = Limit_reached \<longrightarrow> length ex = MAX_ITERATIONS)"
      by (rule run_loop_bounded)
    with adj(1) assms(1) False show ?thesis by (simp add: GraphSearch_def run_def)
  qed
qed

text \<open>
  The bound is reached: two adjacent nodes and an unreachable goal, searched by BFS with duplicate
  checking off. Every iteration pops one of the two nodes and pushes the other.
\<close>

lemma cycle_buildAdjacency: "buildAdjacency cycle_nodes cycle_edges = Inr cycle_adj"
  by (simp add: buildAdjacency_def init_adj_def add_edge_def cycle_nodes_def cycle_edges_def
      cycle_adj_def plain_node_def Let_def)

lemma cycle_iteration:
  assumes "cycle_inv st"
  shows "\<exists>st'. iteration cycle_search st = Inr (Continue st') \<and> cycle_inv st'"
proof -
  from assms obtain it where a: "st_adj st = cycle_adj" and q: "st_queue st = [it]"
    and i: "item_id it = 0 \<or> item_id it = 1" by (auto simp: cycle_inv_def)
  from i show ?thesis
  proof
    assume "item_id it = 0"
    with a q show ?thesis
      by (simp add: iteration_def cycle_search_def cycle_adj_def cycle_inv_def dup_off_def
          cost_ordered_def neighbors_def sort_neighbors_def Let_def)
  next
    assume "item_id it = 1"
    with a q show ?thesis
      by (simp add: iteration_def cycle_search_def cycle_adj_def cycle_inv_def dup_off_def
          cost_ordered_def neighbors_def sort_neighbors_def Let_def)
  qed
qed

lemma cycle_limit:
  assumes "run_loop cycle_search 0 st = Inr h" and "cycle_inv st"
  shows "status (last h) = Limit_reached"
proof -
  have "\<exists>m st'. (\<lambda>m. cycle_inv) m st' \<and> final_outcome cycle_search m st' h"
  proof (rule run_loop_final[where I = "\<lambda>m. cycle_inv", OF assms(1)])
    show "cycle_inv st" by (rule assms(2))
    show "\<And>m a b. cycle_inv a \<Longrightarrow> st_queue a \<noteq> [] \<Longrightarrow> m < MAX_ITERATIONS \<Longrightarrow>
           iteration cycle_search a = Inr (Continue b) \<Longrightarrow> cycle_inv b"
      using cycle_iteration by fastforce
  qed
  then obtain m st' where inv: "cycle_inv st'" and fin: "final_outcome cycle_search m st' h"
    by blast
  from inv have ne: "st_queue st' \<noteq> []" by (auto simp: cycle_inv_def)
  from cycle_iteration[OF inv] have "iteration cycle_search st' \<noteq> Inr (Return h)" by auto
  with fin ne have "h = st_history st' @
      [snapshot (st_queue st') (st_visited st') (st_parents st') None Limit_reached]"
    by (auto simp: final_outcome_def split: if_splits)
  then show ?thesis by (simp add: snapshot_def)
qed

lemma limit_reached_on_cycle:
  assumes "GraphSearch exact_ops cycle_nodes cycle_edges 0 2 BFS dup_off = Inr h"
  shows "status (last h) = Limit_reached"
proof -
  from assms have "run_loop cycle_search 0
      \<lparr>st_adj = cycle_adj,
       st_queue = [\<lparr>item_id = 0, cost = 0, priority = 0, item_h = None, pathLength = 0\<rparr>],
       st_visited = {}, st_parents = Map.empty, st_history = []\<rparr> = Inr h"
    by (simp add: GraphSearch_def cycle_buildAdjacency run_def cycle_search_def)
  then show ?thesis by (rule cycle_limit) (simp add: cycle_inv_def)
qed

theorem iteration_limit_witness:
  "BFS \<noteq> BiBFS \<and> edges_ok cycle_nodes cycle_edges \<and> MAX_ITERATIONS = 1000 \<and>
   (\<exists>ex l. GraphSearch exact_ops cycle_nodes cycle_edges 0 2 BFS dup_off = Inr (ex @ [l]) \<and>
            length ex = 1000 \<and> status l = Limit_reached)"
proof -
  have e: "\<forall>ed \<in> set cycle_edges. source ed \<in> node_id ` set cycle_nodes \<and>
                                  target ed \<in> node_id ` set cycle_nodes"
    by (simp add: cycle_edges_def cycle_nodes_def plain_node_def)
  have t: "BFS \<noteq> BiBFS" by simp
  from t e have
    "MAX_ITERATIONS = 1000 \<and>
     (\<forall>g st. st_queue st \<noteq> [] \<longrightarrow>
        run_loop g MAX_ITERATIONS st =
          Inr (st_history st @
            [snapshot (st_queue st) (st_visited st) (st_parents st) None Limit_reached])) \<and>
     (\<exists>ex l. GraphSearch exact_ops cycle_nodes cycle_edges 0 2 BFS dup_off = Inr (ex @ [l]) \<and>
            (\<forall>x \<in> set ex. status x = Exploring) \<and> length ex \<le> MAX_ITERATIONS \<and>
            status l \<in> {Found, Failed, Limit_reached} \<and>
            (status l = Limit_reached \<longrightarrow> length ex = MAX_ITERATIONS))"
    by (rule iteration_limit) simp
  then obtain ex l where m: "MAX_ITERATIONS = 1000"
    and r: "GraphSearch exact_ops cycle_nodes cycle_edges 0 2 BFS dup_off = Inr (ex @ [l])"
    and l: "status l = Limit_reached \<longrightarrow> length ex = MAX_ITERATIONS"
    by blast
  from limit_reached_on_cycle[OF r] have "status l = Limit_reached" by simp
  with l m r e t show ?thesis by (auto simp: edges_ok_def)
qed

section \<open>When the goal is tested\<close>

lemma set_sorted_queue [simp]: "set (sorted_queue g st) = set (st_queue st)"
  by (simp add: sorted_queue_def)

lemma set_queue_rest: "set (queue_rest g st) \<subseteq> set (st_queue st)"
proof -
  have t: "set (tl xs) \<subseteq> set xs" for xs :: "frontier_item list"
    by (cases xs) auto
  have b: "set (butlast xs) \<subseteq> set xs" for xs :: "frontier_item list"
    by (auto dest: in_set_butlastD)
  have "set (queue_rest g st) \<subseteq> set (sorted_queue g st)"
  proof (cases "gs_type g = DFS")
    case True
    then have "queue_rest g st = butlast (sorted_queue g st)" by (simp add: queue_rest_def)
    then show ?thesis using b[of "sorted_queue g st"] by (simp only:)
  next
    case False
    then have "queue_rest g st = tl (sorted_queue g st)" by (simp add: queue_rest_def)
    then show ?thesis using t[of "sorted_queue g st"] by (simp only:)
  qed
  then show ?thesis by simp
qed

lemma exploring_snapshot_simps [simp]:
  "queue (exploring_snapshot g st) = map Item (sorted_queue g st)"
  "visited (exploring_snapshot g st) = st_visited st"
  "parents (exploring_snapshot g st) = st_parents st"
  "current (exploring_snapshot g st) = Some (item_id (queue_head g st))"
  by (simp_all add: exploring_snapshot_def snapshot_def)

lemma goal_queued_map_Item: "goal_queued e (snapshot q v p c s) \<longleftrightarrow> e \<in> item_id ` set q"
  by (auto simp: goal_queued_def snapshot_def)

lemma goal_queued_exploring:
  "goal_queued e (exploring_snapshot g st) \<longleftrightarrow> e \<in> item_id ` set (st_queue st)"
  by (auto simp: goal_queued_def)

lemma pop_inv_step:
  assumes "pop_inv g a" and "st_queue a \<noteq> []" and "iteration g a = Inr (Continue b)"
    and "cost_ordered (gs_type g)"
  shows "pop_inv g b"
  using assms(3,2)
proof (cases rule: iteration_ContinueE)
  case skip
  with assms(1) show ?thesis by (auto simp: pop_inv_def skips_def)
next
  case (expand adj1 nbrs q3 par3)
  with assms(1,4) show ?thesis by (auto simp: pop_inv_def)
qed

lemma push_inv_step:
  assumes "push_inv g a" and "st_queue a \<noteq> []" and "iteration g a = Inr (Continue b)"
    and "\<not> cost_ordered (gs_type g)"
  shows "push_inv g b"
  using assms(3,2)
proof (cases rule: iteration_ContinueE)
  case skip
  with assms(1) set_queue_rest[of g a] show ?thesis
    by (auto simp: push_inv_def goal_queued_exploring)
next
  case (expand adj1 nbrs q3 par3)
  from expand_Continue[OF expand(4)] obtain new where
    new: "q3 = queue_rest g a @ new" "\<forall>it \<in> set new. item_id it \<noteq> gs_endId g"
    using assms(4) unfolding grows_def by blast
  with assms(1) set_queue_rest[of g a] expand(5) show ?thesis
    by (auto simp: push_inv_def goal_queued_exploring)
qed

lemma pop_shape:
  assumes "run_loop g 0 st = Inr h" and "pop_inv g st" and "cost_ordered (gs_type g)"
  shows "(\<exists>ex l. h = ex @ [l] \<and>
            (\<forall>x \<in> set ex. status x = Exploring \<and> current x \<noteq> Some (gs_endId g)) \<and>
            status l \<noteq> Found) \<or>
         (\<exists>ex x l. h = ex @ [x, l] \<and>
            (\<forall>y \<in> set ex. status y = Exploring \<and> current y \<noteq> Some (gs_endId g)) \<and>
            status x = Exploring \<and> current x = Some (gs_endId g) \<and>
            status l = Found \<and> current l = Some (gs_endId g) \<and>
            queue l = tl (queue x) \<and> visited l = insert (gs_endId g) (visited x) \<and>
            parents l = parents x)"
proof -
  have "\<exists>m st'. (\<lambda>m. pop_inv g) m st' \<and> final_outcome g m st' h"
  proof (rule run_loop_final[where I = "\<lambda>m. pop_inv g", OF assms(1)])
    show "pop_inv g st" by (rule assms(2))
    show "\<And>m a b. pop_inv g a \<Longrightarrow> st_queue a \<noteq> [] \<Longrightarrow> m < MAX_ITERATIONS \<Longrightarrow>
           iteration g a = Inr (Continue b) \<Longrightarrow> pop_inv g b"
      using assms(3) by (rule pop_inv_step[rotated 3])
  qed
  then obtain m st' where inv: "pop_inv g st'" and fin: "final_outcome g m st' h" by blast
  from inv have ex: "\<forall>x \<in> set (st_history st').
      status x = Exploring \<and> current x \<noteq> Some (gs_endId g)"
    by (simp add: pop_inv_def)
  consider (failed) "st_queue st' = []"
      "h = st_history st' @ [snapshot [] (st_visited st') (st_parents st') None Failed]"
    | (limit) "st_queue st' \<noteq> []"
      "h = st_history st' @
             [snapshot (st_queue st') (st_visited st') (st_parents st') None Limit_reached]"
    | (return) "st_queue st' \<noteq> []" "iteration g st' = Inr (Return h)"
    using fin by (auto simp: final_outcome_def split: if_splits)
  then show ?thesis
  proof cases
    case failed
    have "status (snapshot [] (st_visited st') (st_parents st') None Failed) \<noteq> Found"
      by (simp add: snapshot_def)
    with failed(2) ex show ?thesis by blast
  next
    case limit
    have "status (snapshot (st_queue st') (st_visited st') (st_parents st') None Limit_reached)
          \<noteq> Found"
      by (simp add: snapshot_def)
    with limit(2) ex show ?thesis by blast
  next
    case return
    from return(2,1) show ?thesis
    proof (cases rule: iteration_ReturnE)
      case pop
      let ?x = "exploring_snapshot g st'"
      let ?l = "snapshot (queue_rest g st') (insert (item_id (queue_head g st')) (st_visited st'))
                  (st_parents st') (Some (item_id (queue_head g st'))) Found"
      have "queue_rest g st' = tl (sorted_queue g st')"
        using assms(3) by (auto simp: queue_rest_def cost_ordered_def)
      then have "queue ?l = tl (queue ?x)" by (simp add: snapshot_def map_tl)
      with pop ex have "h = st_history st' @ [?x, ?l] \<and>
            (\<forall>y \<in> set (st_history st'). status y = Exploring \<and> current y \<noteq> Some (gs_endId g)) \<and>
            status ?x = Exploring \<and> current ?x = Some (gs_endId g) \<and>
            status ?l = Found \<and> current ?l = Some (gs_endId g) \<and>
            queue ?l = tl (queue ?x) \<and> visited ?l = insert (gs_endId g) (visited ?x) \<and>
            parents ?l = parents ?x"
        by (simp add: snapshot_def)
      then show ?thesis by blast
    next
      case (push adj1 nbrs)
      from expand_Return[OF push(4)] assms(3) show ?thesis by simp
    qed
  qed
qed

lemma push_shape:
  assumes "run_loop g 0 st = Inr h" and "push_inv g st" and "\<not> cost_ordered (gs_type g)"
  shows "\<exists>ex l. h = ex @ [l] \<and>
            (\<forall>x \<in> set ex. status x = Exploring \<and> \<not> goal_queued (gs_endId g) x) \<and>
            (if status l = Found
             then ex \<noteq> [] \<and> current l = Some (gs_endId g) \<and>
                  (\<exists>it. queue l \<noteq> [] \<and> last (queue l) = Item it \<and> item_id it = gs_endId g) \<and>
                  parents l (gs_endId g) = current (last ex)
             else \<not> goal_queued (gs_endId g) l)"
proof -
  have "\<exists>m st'. (\<lambda>m. push_inv g) m st' \<and> final_outcome g m st' h"
  proof (rule run_loop_final[where I = "\<lambda>m. push_inv g", OF assms(1)])
    show "push_inv g st" by (rule assms(2))
    show "\<And>m a b. push_inv g a \<Longrightarrow> st_queue a \<noteq> [] \<Longrightarrow> m < MAX_ITERATIONS \<Longrightarrow>
           iteration g a = Inr (Continue b) \<Longrightarrow> push_inv g b"
      using assms(3) by (rule push_inv_step[rotated 3])
  qed
  then obtain m st' where inv: "push_inv g st'" and fin: "final_outcome g m st' h" by blast
  from inv have ex: "\<forall>x \<in> set (st_history st').
      status x = Exploring \<and> \<not> goal_queued (gs_endId g) x"
    and q: "gs_endId g \<notin> item_id ` set (st_queue st')"
    by (simp_all add: push_inv_def)
  consider (failed) "st_queue st' = []"
      "h = st_history st' @ [snapshot [] (st_visited st') (st_parents st') None Failed]"
    | (limit) "st_queue st' \<noteq> []"
      "h = st_history st' @
             [snapshot (st_queue st') (st_visited st') (st_parents st') None Limit_reached]"
    | (return) "st_queue st' \<noteq> []" "iteration g st' = Inr (Return h)"
    using fin by (auto simp: final_outcome_def split: if_splits)
  then show ?thesis
  proof cases
    case failed
    show ?thesis
      by (rule exI[of _ "st_history st'"],
          rule exI[of _ "snapshot [] (st_visited st') (st_parents st') None Failed"])
         (use failed ex in \<open>simp add: goal_queued_map_Item\<close>, simp add: snapshot_def)
  next
    case limit
    show ?thesis
      by (rule exI[of _ "st_history st'"],
          rule exI[of _ "snapshot (st_queue st') (st_visited st') (st_parents st') None
                           Limit_reached"])
         (use limit ex q in \<open>simp add: goal_queued_map_Item\<close>, simp add: snapshot_def)
  next
    case return
    from return(2,1) show ?thesis
    proof (cases rule: iteration_ReturnE)
      case pop
      with assms(3) show ?thesis by simp
    next
      case (push adj1 nbrs)
      from expand_Return[OF push(4)] obtain q' par' it where
        h: "h = (st_history st' @ [exploring_snapshot g st']) @
                  [snapshot (q' @ [it]) (insert (item_id (queue_head g st')) (st_visited st'))
                     par' (Some (gs_endId g)) Found]"
        and it: "item_id it = gs_endId g"
        and par: "par' (gs_endId g) = Some (item_id (queue_head g st'))"
        by blast
      show ?thesis
        by (rule exI[of _ "st_history st' @ [exploring_snapshot g st']"],
            rule exI[of _ "snapshot (q' @ [it])
               (insert (item_id (queue_head g st')) (st_visited st')) par' (Some (gs_endId g))
               Found"])
           (use h it par ex q in \<open>simp add: goal_queued_exploring\<close>, simp add: snapshot_def)
    qed
  qed
qed

lemma GraphSearch_run_loop:
  assumes "GraphSearch fl ns es startId endId t opts = Inr h" and "startId \<noteq> endId"
    and "t \<noteq> BiBFS"
  obtains adj where "buildAdjacency ns es = Inr adj"
    "run_loop \<lparr>gs_nodes = ns, gs_edges = es, gs_startId = startId, gs_endId = endId,
               gs_type = t, gs_options = opts, gs_float = fl\<rparr> 0
       \<lparr>st_adj = adj,
        st_queue = [\<lparr>item_id = startId, cost = 0, priority = 0, item_h = None, pathLength = 0\<rparr>],
        st_visited = {}, st_parents = Map.empty, st_history = []\<rparr> = Inr h"
  using assms by (auto simp: GraphSearch_def run_def split: sum.splits)

lemma pop_timing:
  assumes "(\<exists>ex l. h = ex @ [l] \<and>
            (\<forall>x \<in> set ex. status x = Exploring \<and> current x \<noteq> Some e) \<and>
            status l \<noteq> Found) \<or>
         (\<exists>ex x l. h = ex @ [x, l] \<and>
            (\<forall>y \<in> set ex. status y = Exploring \<and> current y \<noteq> Some e) \<and>
            status x = Exploring \<and> current x = Some e \<and>
            status l = Found \<and> current l = Some e \<and>
            queue l = tl (queue x) \<and> visited l = insert e (visited x) \<and>
            parents l = parents x)"
    and "i < length h"
  shows "(status (h ! i) = Found \<longleftrightarrow>
            0 < i \<and> status (h ! (i - 1)) = Exploring \<and> current (h ! (i - 1)) = Some e) \<and>
         (status (h ! i) = Found \<longrightarrow>
            Suc i = length h \<and> current (h ! i) = Some e \<and>
            queue (h ! i) = tl (queue (h ! (i - 1))) \<and>
            visited (h ! i) = insert e (visited (h ! (i - 1))))"
  using assms(1)
proof (elim disjE exE conjE)
  fix ex l
  assume h: "h = ex @ [l]" and ex: "\<forall>x \<in> set ex. status x = Exploring \<and> current x \<noteq> Some e"
    and l: "status l \<noteq> Found"
  have nf: "status (h ! i) \<noteq> Found"
  proof (cases "i < length ex")
    case True
    then have "h ! i \<in> set ex" by (simp add: h nth_append)
    with ex show ?thesis by auto
  next
    case False
    with assms(2) h have "h ! i = l" by (simp add: nth_append)
    with l show ?thesis by simp
  qed
  have "\<not> (0 < i \<and> status (h ! (i - 1)) = Exploring \<and> current (h ! (i - 1)) = Some e)"
  proof
    assume a: "0 < i \<and> status (h ! (i - 1)) = Exploring \<and> current (h ! (i - 1)) = Some e"
    with assms(2) h have "i - 1 < length ex" by (cases i) auto
    then have "h ! (i - 1) \<in> set ex" by (simp add: h nth_append)
    with ex a show False by auto
  qed
  with nf show ?thesis by blast
next
  fix ex x l
  assume h: "h = ex @ [x, l]"
    and ex: "\<forall>y \<in> set ex. status y = Exploring \<and> current y \<noteq> Some e"
    and x: "status x = Exploring" "current x = Some e"
    and l: "status l = Found" "current l = Some e" "queue l = tl (queue x)"
      "visited l = insert e (visited x)"
  consider (pre) "i < length ex" | (x) "i = length ex" | (l) "i = Suc (length ex)"
    using assms(2) h by force
  then show ?thesis
  proof cases
    case pre
    then have a: "h ! i \<in> set ex" by (simp add: h nth_append)
    have "i - 1 < length ex" using pre by arith
    then have "0 < i \<Longrightarrow> h ! (i - 1) \<in> set ex" by (simp add: h nth_append)
    with a ex show ?thesis by auto
  next
    case x
    then have a: "h ! i = x" by (simp add: h nth_append)
    have "0 < i \<Longrightarrow> i - 1 < length ex" using x by arith
    then have "0 < i \<Longrightarrow> h ! (i - 1) \<in> set ex" by (simp add: h nth_append)
    with a ex \<open>status x = Exploring\<close> show ?thesis by auto
  next
    case l
    then have "h ! i = l" "h ! (i - 1) = x" "Suc i = length h" by (simp_all add: h nth_append)
    with l x \<open>status l = Found\<close> \<open>current l = Some e\<close> \<open>queue l = tl (queue x)\<close>
      \<open>visited l = insert e (visited x)\<close> \<open>status x = Exploring\<close> \<open>current x = Some e\<close>
    show ?thesis by simp
  qed
qed

lemma push_timing:
  assumes "h = ex @ [l]"
    and "\<forall>x \<in> set ex. status x = Exploring \<and> \<not> goal_queued e x"
    and "if status l = Found
         then ex \<noteq> [] \<and> current l = Some e \<and>
              (\<exists>it. queue l \<noteq> [] \<and> last (queue l) = Item it \<and> item_id it = e) \<and>
              parents l e = current (last ex)
         else \<not> goal_queued e l"
    and "i < length h"
  shows "(status (h ! i) = Found \<longleftrightarrow> goal_queued e (h ! i)) \<and>
         (status (h ! i) = Found \<longrightarrow>
            Suc i = length h \<and> current (h ! i) = Some e \<and> 0 < i \<and>
            (\<exists>it. last (queue (h ! i)) = Item it \<and> item_id it = e) \<and>
            parents (h ! i) e = current (h ! (i - 1)))"
proof (cases "i < length ex")
  case True
  then have "h ! i \<in> set ex" by (simp add: assms(1) nth_append)
  with assms(2) show ?thesis by auto
next
  case False
  with assms(1,4) have i: "i = length ex" and hi: "h ! i = l" by (simp_all add: nth_append)
  show ?thesis
  proof (cases "status l = Found")
    case True
    with assms(3) have f: "ex \<noteq> []" "current l = Some e"
      "\<exists>it. queue l \<noteq> [] \<and> last (queue l) = Item it \<and> item_id it = e"
      "parents l e = current (last ex)" by simp_all
    from f(3) obtain it where it: "queue l \<noteq> []" "last (queue l) = Item it" "item_id it = e"
      by blast
    then have "Item it \<in> set (queue l)" using last_in_set[of "queue l"] by simp
    with it have gq: "goal_queued e l" unfolding goal_queued_def by blast
    have "h ! (i - 1) = last ex" using f(1) i
      by (simp add: assms(1) nth_append last_conv_nth)
    with True f it gq hi i assms(1) show ?thesis by auto
  next
    case False
    with assms(3) have "\<not> goal_queued e l" by simp
    with False hi show ?thesis by simp
  qed
qed

text \<open>
  Claim C4. In a run from a start that is not the end: for Dijkstra and A* a snapshot is
  \<open>found\<close> exactly when the snapshot before it is the \<open>exploring\<close> snapshot of a pop of the goal,
  and its queue is that queue without its head; for BFS and DFS a snapshot is \<open>found\<close> exactly
  when the goal is in its queue, where it is the last entry, pushed as a neighbour of the node
  popped just before. In both cases the \<open>found\<close> snapshot is the last one of the history.
\<close>

theorem goal_test_timing:
  assumes "GraphSearch fl ns es startId endId t opts = Inr h" and "startId \<noteq> endId"
    and "t \<noteq> BiBFS" and "i < length h"
  shows "(t = Dijkstra \<or> t = AStar \<longrightarrow>
            (status (h ! i) = Found \<longleftrightarrow>
               0 < i \<and> status (h ! (i - 1)) = Exploring \<and> current (h ! (i - 1)) = Some endId) \<and>
            (status (h ! i) = Found \<longrightarrow>
               queue (h ! i) = tl (queue (h ! (i - 1))) \<and>
               visited (h ! i) = insert endId (visited (h ! (i - 1))))) \<and>
         (t = BFS \<or> t = DFS \<longrightarrow>
            (status (h ! i) = Found \<longleftrightarrow>
               (\<exists>it. Item it \<in> set (queue (h ! i)) \<and> item_id it = endId)) \<and>
            (status (h ! i) = Found \<longrightarrow>
               0 < i \<and> (\<exists>it. last (queue (h ! i)) = Item it \<and> item_id it = endId) \<and>
               parents (h ! i) endId = current (h ! (i - 1)))) \<and>
         (status (h ! i) = Found \<longrightarrow> Suc i = length h \<and> current (h ! i) = Some endId)"
proof -
  let ?g = "\<lparr>gs_nodes = ns, gs_edges = es, gs_startId = startId, gs_endId = endId,
             gs_type = t, gs_options = opts, gs_float = fl\<rparr>"
  from assms(1,2,3) obtain adj where
    run: "run_loop ?g 0
       \<lparr>st_adj = adj,
        st_queue = [\<lparr>item_id = startId, cost = 0, priority = 0, item_h = None, pathLength = 0\<rparr>],
        st_visited = {}, st_parents = Map.empty, st_history = []\<rparr> = Inr h"
    by (rule GraphSearch_run_loop)
  show ?thesis
  proof (cases "cost_ordered t")
    case True
    then have co: "cost_ordered (gs_type ?g)" by simp
    have "pop_inv ?g \<lparr>st_adj = adj,
        st_queue = [\<lparr>item_id = startId, cost = 0, priority = 0, item_h = None, pathLength = 0\<rparr>],
        st_visited = {}, st_parents = Map.empty, st_history = []\<rparr>"
      by (simp add: pop_inv_def)
    from pop_timing[OF pop_shape[OF run this co, simplified] assms(4)] True
    show ?thesis by (auto simp: cost_ordered_def)
  next
    case False
    then have nco: "\<not> cost_ordered (gs_type ?g)" by simp
    have "push_inv ?g \<lparr>st_adj = adj,
        st_queue = [\<lparr>item_id = startId, cost = 0, priority = 0, item_h = None, pathLength = 0\<rparr>],
        st_visited = {}, st_parents = Map.empty, st_history = []\<rparr>"
      using assms(2) by (simp add: push_inv_def)
    moreover have ge: "gs_endId ?g = endId" by simp
    ultimately obtain ex l where
      s: "h = ex @ [l]"
         "\<forall>x \<in> set ex. status x = Exploring \<and> \<not> goal_queued endId x"
         "if status l = Found
          then ex \<noteq> [] \<and> current l = Some endId \<and>
               (\<exists>it. queue l \<noteq> [] \<and> last (queue l) = Item it \<and> item_id it = endId) \<and>
               parents l endId = current (last ex)
          else \<not> goal_queued endId l"
      using push_shape[OF run _ nco, unfolded ge] by blast
    from push_timing[OF s assms(4)] False
    show ?thesis unfolding goal_queued_def by (auto simp: cost_ordered_def)
  qed
qed

lemma nonAdmissible_run_eval:
  "\<exists>s0 s1 s2 s3 s4. nonAdmissible_run = Inr [s0, s1, s2, s3, s4] \<and>
     status s3 = Exploring \<and> current s3 = Some 4 \<and> status s4 = Found \<and>
     queue s4 = tl (queue s3)"
  by (simp add: eval_simps)

theorem goal_test_timing_witness:
  "nonAdmissible_run = Inr (projr nonAdmissible_run) \<and> (0::nat) \<noteq> 4 \<and> AStar \<noteq> BiBFS \<and>
   4 < length (projr nonAdmissible_run) \<and>
   status (projr nonAdmissible_run ! 4) = Found \<and>
   status (projr nonAdmissible_run ! (4 - 1)) = Exploring \<and>
   current (projr nonAdmissible_run ! (4 - 1)) = Some 4 \<and>
   queue (projr nonAdmissible_run ! 4) = tl (queue (projr nonAdmissible_run ! (4 - 1))) \<and>
   Suc 4 = length (projr nonAdmissible_run)"
proof -
  from nonAdmissible_run_eval obtain s0 s1 s2 s3 s4 where
    r: "nonAdmissible_run = Inr [s0, s1, s2, s3, s4]" and
    p: "status s3 = Exploring" "current s3 = Some 4" by blast
  have g: "GraphSearch exact_ops nonAdmissible_nodes nonAdmissible_edges 0 4 AStar
             \<lparr>checkDuplicates = True, heuristicType = Preset\<rparr> = Inr [s0, s1, s2, s3, s4]"
    using r by (simp add: nonAdmissible_run_def)
  have "(0::nat) \<noteq> 4" "AStar \<noteq> BiBFS" "4 < length [s0, s1, s2, s3, s4]" by simp_all
  from goal_test_timing[OF g this] p show ?thesis unfolding r by simp
qed

section \<open>The parents map\<close>

lemma justified_mono: "justified hist par \<Longrightarrow> justified (hist @ ys) par"
  unfolding justified_def by fastforce

lemma justified_empty [simp]: "justified hist Map.empty"
  by (simp add: justified_def)

lemma parents_justified_Nil [simp]: "parents_justified []"
  by (simp add: parents_justified_def)

lemma parents_justified_snoc:
  assumes "parents_justified hist" and "justified hist (parents x)"
  shows "parents_justified (hist @ [x])"
  unfolding parents_justified_def
proof (intro allI impI)
  fix i assume "i < length (hist @ [x])"
  then consider "i < length hist" | "i = length hist" by force
  then show "justified (take i (hist @ [x])) (parents ((hist @ [x]) ! i))"
  proof cases
    case 1
    with assms(1) show ?thesis by (simp add: parents_justified_def nth_append)
  next
    case 2
    with assms(2) show ?thesis by simp
  qed
qed

lemma parents_justified_nth:
  assumes "parents_justified h" and "i < length h" and "parents (h ! i) k = Some v"
  shows "\<exists>j<i. status (h ! j) = Exploring \<and> current (h ! j) = Some v"
proof -
  from assms obtain x where x: "x \<in> set (take i h)" "status x = Exploring" "current x = Some v"
    unfolding parents_justified_def justified_def by blast
  from x(1) obtain j where "j < length (take i h)" "take i h ! j = x"
    by (auto simp: in_set_conv_nth)
  with assms(2) have "j < i" "h ! j = x" by simp_all
  with x show ?thesis by blast
qed

lemma grows_justified:
  assumes "grows g cur vis es q par q' par'" and "justified hist par"
    and "x \<in> set hist" and "status x = Exploring" and "current x = Some (item_id cur)"
  shows "justified hist par'"
  unfolding justified_def
proof (intro allI impI)
  fix k v assume a: "par' k = Some v"
  from assms(1) have "par' k = par k \<or> par' k = Some (item_id cur)"
    unfolding grows_def by blast
  then show "\<exists>x \<in> set hist. status x = Exploring \<and> current x = Some v"
  proof
    assume "par' k = par k"
    with a assms(2) show ?thesis unfolding justified_def by auto
  next
    assume "par' k = Some (item_id cur)"
    with a assms(3,4,5) show ?thesis by auto
  qed
qed

lemma grows_start:
  assumes "grows g cur vis es q par q' par'" and "checkDuplicates (gs_options g)"
    and "s \<in> vis"
  shows "par' s = par s"
  using assms unfolding grows_def by blast

lemma queue_head_single:
  assumes "map item_id (st_queue st) = [s]"
  shows "item_id (queue_head g st) = s"
proof -
  from assms obtain it where "st_queue st = [it]" "item_id it = s" by auto
  then show ?thesis by (simp add: queue_head_def sorted_queue_def)
qed

lemma start_in_visited_after_pop:
  assumes "s \<in> st_visited st \<or> map item_id (st_queue st) = [s]"
  shows "s \<in> insert (item_id (queue_head g st)) (st_visited st)"
  using assms queue_head_single[of st s g] by auto

lemma exploring_justifies:
  "exploring_snapshot g st \<in> set (hist @ [exploring_snapshot g st]) \<and>
   status (exploring_snapshot g st) = Exploring \<and>
   current (exploring_snapshot g st) = Some (item_id (queue_head g st))"
  by simp

lemma start_free_simps [simp]:
  "start_free s []"
  "start_free s (x # xs) \<longleftrightarrow> parents x s = None \<and> start_free s xs"
  "start_free s (xs @ ys) \<longleftrightarrow> start_free s xs \<and> start_free s ys"
  by (auto simp: start_free_def)

lemma par_inv_step:
  assumes "par_inv g a" and "st_queue a \<noteq> []" and "iteration g a = Inr (Continue b)"
  shows "par_inv g b"
  using assms(3,2)
proof (cases rule: iteration_ContinueE)
  case skip
  from assms(1) have pj: "parents_justified (st_history a)"
    and j: "justified (st_history a) (st_parents a)" by (simp_all add: par_inv_def)
  have "parents_justified (st_history a @ [exploring_snapshot g a])"
    by (rule parents_justified_snoc[OF pj]) (simp add: j)
  moreover have "justified (st_history a @ [exploring_snapshot g a]) (st_parents a)"
    by (rule justified_mono[OF j])
  moreover have "checkDuplicates (gs_options g) \<longrightarrow>
         st_parents a (gs_startId g) = None \<and>
         start_free (gs_startId g) (st_history a @ [exploring_snapshot g a]) \<and>
         gs_startId g \<in> st_visited a"
    using assms(1) skip(1) queue_head_single[of a "gs_startId g" g]
    by (auto simp: par_inv_def skips_def)
  ultimately show ?thesis using skip(2) by (simp add: par_inv_def)
next
  case (expand adj1 nbrs q3 par3)
  let ?h = "st_history a @ [exploring_snapshot g a]"
  let ?vis = "insert (item_id (queue_head g a)) (st_visited a)"
  from assms(1) have pj: "parents_justified (st_history a)"
    and j: "justified (st_history a) (st_parents a)" by (simp_all add: par_inv_def)
  note gr = expand_Continue[OF expand(4)]
  have 1: "parents_justified ?h"
    by (rule parents_justified_snoc[OF pj]) (simp add: j)
  have 2: "justified ?h par3"
    by (rule grows_justified[OF gr justified_mono[OF j], of "exploring_snapshot g a"]) simp_all
  have 3: "checkDuplicates (gs_options g) \<longrightarrow>
         par3 (gs_startId g) = None \<and> start_free (gs_startId g) ?h \<and> gs_startId g \<in> ?vis"
  proof
    assume c: "checkDuplicates (gs_options g)"
    with assms(1) have s: "st_parents a (gs_startId g) = None"
      "start_free (gs_startId g) (st_history a)"
      "gs_startId g \<in> st_visited a \<or> map item_id (st_queue a) = [gs_startId g]"
      by (simp_all add: par_inv_def)
    from start_in_visited_after_pop[OF s(3)] have v: "gs_startId g \<in> ?vis" .
    from grows_start[OF gr c v] s(1) have "par3 (gs_startId g) = None" by simp
    with s v show "par3 (gs_startId g) = None \<and> start_free (gs_startId g) ?h \<and>
                   gs_startId g \<in> ?vis"
      by simp
  qed
  from 1 2 3 expand(5) show ?thesis by (simp add: par_inv_def)
qed

lemma par_inv_final:
  assumes "par_inv g st" and "final_outcome g m st h"
  shows "parents_justified h \<and>
         (checkDuplicates (gs_options g) \<longrightarrow> start_free (gs_startId g) h)"
proof -
  from assms(1) have pj: "parents_justified (st_history st)"
    and j: "justified (st_history st) (st_parents st)" by (simp_all add: par_inv_def)
  have sf: "checkDuplicates (gs_options g) \<Longrightarrow>
      st_parents st (gs_startId g) = None \<and> start_free (gs_startId g) (st_history st) \<and>
      (gs_startId g \<in> st_visited st \<or> map item_id (st_queue st) = [gs_startId g])"
    using assms(1) by (simp add: par_inv_def)
  consider (failed) "st_queue st = []"
      "h = st_history st @ [snapshot [] (st_visited st) (st_parents st) None Failed]"
    | (limit) "st_queue st \<noteq> []"
      "h = st_history st @
             [snapshot (st_queue st) (st_visited st) (st_parents st) None Limit_reached]"
    | (return) "st_queue st \<noteq> []" "iteration g st = Inr (Return h)"
    using assms(2) by (auto simp: final_outcome_def split: if_splits)
  then show ?thesis
  proof cases
    case failed
    have "parents_justified h" unfolding failed(2)
      by (rule parents_justified_snoc[OF pj]) (simp add: snapshot_def j)
    with sf failed(2) show ?thesis by (auto simp: snapshot_def)
  next
    case limit
    have "parents_justified h" unfolding limit(2)
      by (rule parents_justified_snoc[OF pj]) (simp add: snapshot_def j)
    with sf limit(2) show ?thesis by (auto simp: snapshot_def)
  next
    case return
    let ?h = "st_history st @ [exploring_snapshot g st]"
    let ?vis = "insert (item_id (queue_head g st)) (st_visited st)"
    have 1: "parents_justified ?h"
      by (rule parents_justified_snoc[OF pj]) (simp add: j)
    from return(2,1) show ?thesis
    proof (cases rule: iteration_ReturnE)
      case pop
      have h: "h = ?h @ [snapshot (queue_rest g st) ?vis (st_parents st)
                          (Some (item_id (queue_head g st))) Found]"
        using pop(4) by simp
      have "parents_justified h" unfolding h
        by (rule parents_justified_snoc[OF 1]) (simp add: snapshot_def justified_mono[OF j])
      with sf h show ?thesis by (auto simp: snapshot_def)
    next
      case (push adj1 nbrs)
      from expand_Return[OF push(4)] obtain q' par' it where
        h: "h = ?h @ [snapshot (q' @ [it]) ?vis par' (Some (gs_endId g)) Found]"
        and gr: "grows g (queue_head g st) ?vis nbrs (queue_rest g st) (st_parents st) q' par'"
        by blast
      have 2: "justified ?h par'"
        by (rule grows_justified[OF gr justified_mono[OF j], of "exploring_snapshot g st"])
           simp_all
      have "parents_justified h" unfolding h
        by (rule parents_justified_snoc[OF 1]) (simp add: snapshot_def 2)
      moreover have "checkDuplicates (gs_options g) \<longrightarrow> start_free (gs_startId g) h"
      proof
        assume c: "checkDuplicates (gs_options g)"
        from sf[OF c] have s: "st_parents st (gs_startId g) = None"
          "start_free (gs_startId g) (st_history st)"
          "gs_startId g \<in> st_visited st \<or> map item_id (st_queue st) = [gs_startId g]"
          by simp_all
        from start_in_visited_after_pop[OF s(3)] have v: "gs_startId g \<in> ?vis" .
        from grows_start[OF gr c v] s(1) have "par' (gs_startId g) = None" by simp
        with s show "start_free (gs_startId g) h"
          unfolding h by (simp add: snapshot_def)
      qed
      ultimately show ?thesis by blast
    qed
  qed
qed

lemma run_parents:
  assumes "run g adj = Inr h" and "gs_type g \<noteq> BiBFS"
  shows "parents_justified h \<and>
         (checkDuplicates (gs_options g) \<longrightarrow> start_free (gs_startId g) h)"
proof (cases "gs_startId g = gs_endId g")
  case True
  with assms have "h = [snapshot [\<lparr>item_id = gs_startId g, cost = 0, priority = 0,
      item_h = None, pathLength = 0\<rparr>] {} Map.empty (Some (gs_startId g)) Found]"
    by (simp add: run_def)
  then show ?thesis
    using parents_justified_snoc[of "[]" "snapshot [\<lparr>item_id = gs_startId g, cost = 0,
      priority = 0, item_h = None, pathLength = 0\<rparr>] {} Map.empty (Some (gs_startId g)) Found"]
    by (simp add: snapshot_def)
next
  case False
  let ?st = "\<lparr>st_adj = adj,
      st_queue = [\<lparr>item_id = gs_startId g, cost = 0, priority = 0, item_h = None,
                   pathLength = 0\<rparr>],
      st_visited = {}, st_parents = Map.empty, st_history = []\<rparr>"
  from assms False have r: "run_loop g 0 ?st = Inr h" by (simp add: run_def)
  have i0: "par_inv g ?st" by (simp add: par_inv_def)
  have "\<exists>m st'. (\<lambda>m. par_inv g) m st' \<and> final_outcome g m st' h"
  proof (rule run_loop_final[where I = "\<lambda>m. par_inv g", OF r])
    show "par_inv g ?st" by (rule i0)
    show "\<And>m a b. par_inv g a \<Longrightarrow> st_queue a \<noteq> [] \<Longrightarrow> m < MAX_ITERATIONS \<Longrightarrow>
           iteration g a = Inr (Continue b) \<Longrightarrow> par_inv g b"
      by (rule par_inv_step)
  qed
  then obtain m st' where "par_inv g st'" "final_outcome g m st' h" by blast
  then show ?thesis by (rule par_inv_final)
qed

lemma expand_side_facts:
  "expand_side c es (v, p, q) = (v', p', q') \<Longrightarrow>
   v \<subseteq> v' \<and> adj_to ` set es \<subseteq> v' \<and>
   (\<forall>k. p' k = p k \<or> (p' k = Some c \<and> k \<notin> v \<and> k \<in> adj_to ` set es))"
proof (induction es arbitrary: v p q)
  case Nil
  then show ?case by simp
next
  case (Cons e es)
  show ?case
  proof (cases "adj_to e \<in> v")
    case True
    with Cons.prems have "expand_side c es (v, p, q) = (v', p', q')" by simp
    from Cons.IH[OF this] True show ?thesis by auto
  next
    case False
    with Cons.prems have
      "expand_side c es (insert (adj_to e) v, p(adj_to e \<mapsto> c), q @ [adj_to e]) = (v', p', q')"
      by simp
    from Cons.IH[OF this] have
      1: "insert (adj_to e) v \<subseteq> v'" and 2: "adj_to ` set es \<subseteq> v'" and
      3: "\<forall>k. p' k = (p(adj_to e \<mapsto> c)) k \<or>
              (p' k = Some c \<and> k \<notin> insert (adj_to e) v \<and> k \<in> adj_to ` set es)"
      by blast+
    have "\<forall>k. p' k = p k \<or> (p' k = Some c \<and> k \<notin> v \<and> k \<in> adj_to ` set (e # es))"
    proof
      fix k
      show "p' k = p k \<or> (p' k = Some c \<and> k \<notin> v \<and> k \<in> adj_to ` set (e # es))"
        using 3[rule_format, of k] False by (cases "k = adj_to e") auto
    qed
    with 1 2 show ?thesis by auto
  qed
qed

lemma bi_iteration_ContinueE:
  assumes "bi_iteration adj st = Continue st'"
  obtains vS1 pS1 qS2 vE1 pE1 qE2 where
    "hd (qStart st) \<notin> visitedEnd st"
    "expand_side (hd (qStart st)) (adj_list adj (hd (qStart st)))
       (visitedStart st, parentStart st, tl (qStart st)) = (vS1, pS1, qS2)"
    "hd (qEnd st) \<notin> vS1"
    "expand_side (hd (qEnd st)) (adj_list adj (hd (qEnd st)))
       (visitedEnd st, parentEnd st, tl (qEnd st)) = (vE1, pE1, qE2)"
    "st' = \<lparr>qStart = qS2, qEnd = qE2, visitedStart = vS1, visitedEnd = vE1,
            parentStart = pS1, parentEnd = pE1,
            bi_history = bi_history st @ [start_snapshot st, end_snapshot st vS1 pS1 qS2]\<rparr>"
  using assms
  unfolding bi_iteration_def Let_def start_snapshot_def end_snapshot_def
  by (auto split: if_splits prod.splits)

lemma bi_iteration_ReturnE:
  assumes "bi_iteration adj st = Return h"
  obtains (at_start) "hd (qStart st) \<in> visitedEnd st"
      "h = bi_history st @ [mark_found (hd (qStart st)) (start_snapshot st)]"
  | (at_end) vS1 pS1 qS2 where "hd (qStart st) \<notin> visitedEnd st"
      "expand_side (hd (qStart st)) (adj_list adj (hd (qStart st)))
         (visitedStart st, parentStart st, tl (qStart st)) = (vS1, pS1, qS2)"
      "hd (qEnd st) \<in> vS1"
      "h = bi_history st @
             [start_snapshot st, mark_found (hd (qEnd st)) (end_snapshot st vS1 pS1 qS2)]"
  using assms
  unfolding bi_iteration_def Let_def start_snapshot_def end_snapshot_def
  by (auto split: if_splits prod.splits)

lemma bi_snapshot_simps [simp]:
  "status (bi_snapshot qS qE vS vE pS pE c sd) = Exploring"
  "current (bi_snapshot qS qE vS vE pS pE c sd) = Some c"
  "parents (bi_snapshot qS qE vS vE pS pE c sd) = pS ++ pE"
  by (simp_all add: bi_snapshot_def)

lemma mark_found_simps [simp]:
  "parents (mark_found i x) = parents x"
  "status (mark_found i x) = Found"
  by (simp_all add: mark_found_def)

lemma justified_map_add:
  "justified hist p \<Longrightarrow> justified hist p' \<Longrightarrow> justified hist (p ++ p')"
  unfolding justified_def by (auto simp: map_add_Some_iff)

lemma justified_side:
  assumes "\<forall>k. p' k = p k \<or> (p' k = Some c \<and> k \<notin> v \<and> k \<in> T)"
    and "justified hist p" and "x \<in> set hist" and "status x = Exploring"
    and "current x = Some c"
  shows "justified hist p'"
  unfolding justified_def
proof (intro allI impI)
  fix k w assume a: "p' k = Some w"
  from assms(1) have "p' k = p k \<or> p' k = Some c" by blast
  then show "\<exists>x \<in> set hist. status x = Exploring \<and> current x = Some w"
  proof
    assume "p' k = p k"
    with a assms(2) show ?thesis unfolding justified_def by auto
  next
    assume "p' k = Some c"
    with a assms(3,4,5) show ?thesis by auto
  qed
qed

lemma bi_loop_final:
  assumes "I st"
    and "\<And>a b. I a \<Longrightarrow> qStart a \<noteq> [] \<Longrightarrow> qEnd a \<noteq> [] \<Longrightarrow>
           bi_iteration adj a = Continue b \<Longrightarrow> I b"
  shows "\<exists>st'. I st' \<and>
           (((qStart st' = [] \<or> qEnd st' = []) \<and> runBiBFS_loop adj st = bi_history st') \<or>
            (qStart st' \<noteq> [] \<and> qEnd st' \<noteq> [] \<and>
             bi_iteration adj st' = Return (runBiBFS_loop adj st)))"
  using assms
proof (induction adj st rule: runBiBFS_loop.induct)
  case (1 adj st)
  note step = "1.prems"(2)
  show ?case
  proof (cases "qStart st \<noteq> [] \<and> qEnd st \<noteq> []")
    case False
    then have "runBiBFS_loop adj st = bi_history st" by (auto simp: runBiBFS_loop.simps)
    with False "1.prems"(1) show ?thesis by blast
  next
    case True
    show ?thesis
    proof (cases "bi_iteration adj st")
      case (Return h)
      with True have "runBiBFS_loop adj st = h" by (simp add: runBiBFS_loop.simps)
      with True Return "1.prems"(1) show ?thesis by blast
    next
      case (Continue st')
      with True have r: "runBiBFS_loop adj st = runBiBFS_loop adj st'"
        by (simp add: runBiBFS_loop.simps)
      have "I st'" using "1.prems"(1) True Continue by (auto intro: step)
      then have "\<exists>st''. I st'' \<and>
           (((qStart st'' = [] \<or> qEnd st'' = []) \<and> runBiBFS_loop adj st' = bi_history st'') \<or>
            (qStart st'' \<noteq> [] \<and> qEnd st'' \<noteq> [] \<and>
             bi_iteration adj st'' = Return (runBiBFS_loop adj st')))"
      proof (rule "1.IH"[OF True Continue])
        show "\<And>a b. I a \<Longrightarrow> qStart a \<noteq> [] \<Longrightarrow> qEnd a \<noteq> [] \<Longrightarrow>
           bi_iteration adj a = Continue b \<Longrightarrow> I b"
          by (rule step)
      qed
      with r show ?thesis by simp
    qed
  qed
qed

lemma bi_inv_step:
  assumes "bi_inv adj s a" and "sym_adj adj" and "qStart a \<noteq> []"
    and "bi_iteration adj a = Continue b"
  shows "bi_inv adj s b"
  using assms(4)
proof (cases rule: bi_iteration_ContinueE)
  case (1 vS1 pS1 qS2 vE1 pE1 qE2)
  let ?x1 = "start_snapshot a" and ?x2 = "end_snapshot a vS1 pS1 qS2"
  let ?h1 = "bi_history a @ [?x1]" and ?h2 = "bi_history a @ [?x1, ?x2]"
  from assms(1) have pj: "parents_justified (bi_history a)"
    and jS: "justified (bi_history a) (parentStart a)"
    and jE: "justified (bi_history a) (parentEnd a)"
    and s: "s \<in> visitedStart a" "parentStart a s = None" "parentEnd a s = None"
      "start_free s (bi_history a)"
    and n: "qStart a = [s] \<or> adj_to ` set (adj_list adj s) \<subseteq> visitedStart a"
    by (simp_all add: bi_inv_def)
  note fS = expand_side_facts[OF 1(2)] and fE = expand_side_facts[OF 1(4)]
  have x1: "status ?x1 = Exploring" "current ?x1 = Some (hd (qStart a))"
      "parents ?x1 = parentStart a ++ parentEnd a"
    by (simp_all add: start_snapshot_def)
  have x2: "status ?x2 = Exploring" "current ?x2 = Some (hd (qEnd a))"
      "parents ?x2 = pS1 ++ parentEnd a"
    by (simp_all add: end_snapshot_def)
  have jS1: "justified ?h1 pS1"
    by (rule justified_side[of pS1 "parentStart a" "hd (qStart a)" "visitedStart a"
          "adj_to ` set (adj_list adj (hd (qStart a)))" ?h1 ?x1])
       (use fS x1 justified_mono[OF jS] in auto)
  have h2: "?h2 = ?h1 @ [?x2]" by simp
  have jS2: "justified ?h2 pS1" unfolding h2 by (rule justified_mono[OF jS1])
  have jE2: "justified ?h2 pE1"
    by (rule justified_side[of pE1 "parentEnd a" "hd (qEnd a)" "visitedEnd a"
          "adj_to ` set (adj_list adj (hd (qEnd a)))" ?h2 ?x2])
       (use fE x2 justified_mono[OF jE, of "[?x1, ?x2]"] in auto)
  have pj1: "parents_justified ?h1"
    by (rule parents_justified_snoc[OF pj]) (simp add: x1 justified_map_add[OF jS jE])
  have pj2: "parents_justified ?h2" unfolding h2
    by (rule parents_justified_snoc[OF pj1])
       (simp add: x2 justified_map_add[OF jS1 justified_mono[OF jE]])
  have sv: "s \<in> vS1" using fS s(1) by blast
  have pS1s: "pS1 s = None" using fS s(1,2) by metis
  have nb: "adj_to ` set (adj_list adj s) \<subseteq> vS1"
  proof (cases "qStart a = [s]")
    case True
    then have "hd (qStart a) = s" by simp
    with fS show ?thesis by simp
  next
    case False
    with n fS show ?thesis by blast
  qed
  have pE1s: "pE1 s = None"
  proof (rule ccontr)
    assume "pE1 s \<noteq> None"
    with fE s(3) have "s \<in> adj_to ` set (adj_list adj (hd (qEnd a)))" by metis
    with assms(2) have "hd (qEnd a) \<in> adj_to ` set (adj_list adj s)"
      unfolding sym_adj_def by blast
    with nb 1(3) show False by blast
  qed
  have sf: "start_free s ?h2"
    using s(4) s(2,3) pS1s by (simp add: x1 x2 map_add_def)
  from pj2 jS2 jE2 sv pS1s pE1s sf nb 1(5) show ?thesis by (simp add: bi_inv_def)
qed

lemma bi_inv_final:
  assumes "bi_inv adj s st"
    and "((qStart st = [] \<or> qEnd st = []) \<and> h = bi_history st) \<or>
         (qStart st \<noteq> [] \<and> qEnd st \<noteq> [] \<and> bi_iteration adj st = Return h)"
  shows "parents_justified h \<and> start_free s h"
proof -
  from assms(1) have pj: "parents_justified (bi_history st)"
    and jS: "justified (bi_history st) (parentStart st)"
    and jE: "justified (bi_history st) (parentEnd st)"
    and s: "s \<in> visitedStart st" "parentStart st s = None" "parentEnd st s = None"
      "start_free s (bi_history st)"
    by (simp_all add: bi_inv_def)
  from assms(2) consider (stopped) "h = bi_history st" | (ret) "bi_iteration adj st = Return h"
    by blast
  then show ?thesis
  proof cases
    case stopped
    with pj s(4) show ?thesis by simp
  next
    case ret
    then show ?thesis
    proof (cases rule: bi_iteration_ReturnE)
      case at_start
      have "parents_justified h" unfolding at_start(2)
        by (rule parents_justified_snoc[OF pj])
           (simp add: start_snapshot_def justified_map_add[OF jS jE])
      moreover have "start_free s h" unfolding at_start(2)
        using s by (simp add: start_snapshot_def map_add_def)
      ultimately show ?thesis by blast
    next
      case (at_end vS1 pS1 qS2)
      let ?x1 = "start_snapshot st" and ?x2 = "end_snapshot st vS1 pS1 qS2"
      let ?h1 = "bi_history st @ [?x1]"
      note fS = expand_side_facts[OF at_end(2)]
      have x1: "status ?x1 = Exploring" "current ?x1 = Some (hd (qStart st))"
          "parents ?x1 = parentStart st ++ parentEnd st"
        by (simp_all add: start_snapshot_def)
      have jS1: "justified ?h1 pS1"
        by (rule justified_side[of pS1 "parentStart st" "hd (qStart st)" "visitedStart st"
              "adj_to ` set (adj_list adj (hd (qStart st)))" ?h1 ?x1])
           (use fS x1 justified_mono[OF jS] in auto)
      have pj1: "parents_justified ?h1"
        by (rule parents_justified_snoc[OF pj]) (simp add: x1 justified_map_add[OF jS jE])
      have h: "h = ?h1 @ [mark_found (hd (qEnd st)) ?x2]" using at_end(4) by simp
      have "parents_justified h" unfolding h
        by (rule parents_justified_snoc[OF pj1])
           (simp add: end_snapshot_def justified_map_add[OF jS1 justified_mono[OF jE]])
      moreover have "pS1 s = None" using fS s(1,2) by metis
      then have "start_free s h" unfolding h
        using s by (simp add: x1 end_snapshot_def map_add_def)
      ultimately show ?thesis by blast
    qed
  qed
qed

lemma runBiBFS_parents:
  assumes "sym_adj adj"
  shows "parents_justified (runBiBFS g adj) \<and> start_free (gs_startId g) (runBiBFS g adj)"
proof -
  let ?st = "\<lparr>qStart = [gs_startId g], qEnd = [gs_endId g],
        visitedStart = {gs_startId g}, visitedEnd = {gs_endId g},
        parentStart = Map.empty, parentEnd = Map.empty, bi_history = []\<rparr>"
  have i0: "bi_inv adj (gs_startId g) ?st" by (simp add: bi_inv_def)
  have "\<exists>st'. bi_inv adj (gs_startId g) st' \<and>
           (((qStart st' = [] \<or> qEnd st' = []) \<and> runBiBFS_loop adj ?st = bi_history st') \<or>
            (qStart st' \<noteq> [] \<and> qEnd st' \<noteq> [] \<and>
             bi_iteration adj st' = Return (runBiBFS_loop adj ?st)))"
  proof (rule bi_loop_final[where I = "bi_inv adj (gs_startId g)", OF i0])
    show "\<And>a b. bi_inv adj (gs_startId g) a \<Longrightarrow> qStart a \<noteq> [] \<Longrightarrow> qEnd a \<noteq> [] \<Longrightarrow>
           bi_iteration adj a = Continue b \<Longrightarrow> bi_inv adj (gs_startId g) b"
      using assms by (rule bi_inv_step[rotated])
  qed
  then obtain st' where "bi_inv adj (gs_startId g) st'"
    "((qStart st' = [] \<or> qEnd st' = []) \<and> runBiBFS_loop adj ?st = bi_history st') \<or>
     (qStart st' \<noteq> [] \<and> qEnd st' \<noteq> [] \<and> bi_iteration adj st' = Return (runBiBFS_loop adj ?st))"
    by blast
  then have "parents_justified (runBiBFS_loop adj ?st) \<and>
             start_free (gs_startId g) (runBiBFS_loop adj ?st)"
    by (rule bi_inv_final)
  then show ?thesis by (simp add: runBiBFS_def)
qed

lemma adj_list_update:
  "adj_list (AList.update k v al) x = (if x = k then v else adj_list al x)"
  by (simp add: adj_list_def update_conv')

lemma adj_list_init: "adj_list (init_adj ns) x = []"
proof (cases "map_of (init_adj ns) x")
  case None
  then show ?thesis by (simp add: adj_list_def)
next
  case (Some l)
  then have "l = [] \<or> map_of [] x = Some l"
    unfolding init_adj_def by (rule map_of_foldl_update_empty)
  with Some show ?thesis by (simp add: adj_list_def)
qed

lemma add_edge_targets:
  assumes "add_edge adj e = Inr adj'"
  shows "adj_to ` set (adj_list adj' x) =
         adj_to ` set (adj_list adj x) \<union> (if x = source e then {target e} else {}) \<union>
         (if x = target e then {source e} else {})"
proof -
  from assms obtain l l2 where
    l: "map_of adj (source e) = Some l" and
    l2: "map_of (AList.update (source e) (l @ [\<lparr>adj_to = target e, adj_weight = weight e\<rparr>]) adj)
           (target e) = Some l2" and
    adj': "adj' = AList.update (target e) (l2 @ [\<lparr>adj_to = source e, adj_weight = weight e\<rparr>])
             (AList.update (source e) (l @ [\<lparr>adj_to = target e, adj_weight = weight e\<rparr>]) adj)"
    by (auto simp: add_edge_def Let_def split: option.splits)
  from l have al: "adj_list adj (source e) = l" by (simp add: adj_list_def)
  from l2 have al2: "l2 = (if target e = source e
      then l @ [\<lparr>adj_to = target e, adj_weight = weight e\<rparr>] else adj_list adj (target e))"
    by (auto simp: update_conv' adj_list_def split: if_splits)
  show ?thesis
    unfolding adj' adj_list_update al2 using al by auto
qed

lemma add_edge_sym:
  assumes "add_edge adj e = Inr adj'" and "sym_adj adj"
  shows "sym_adj adj'"
proof -
  define T where "T x = adj_to ` set (adj_list adj x)" for x
  define T' where "T' x = adj_to ` set (adj_list adj' x)" for x
  have eq: "T' x = T x \<union> (if x = source e then {target e} else {}) \<union>
                  (if x = target e then {source e} else {})" for x
    unfolding T_def T'_def by (rule add_edge_targets[OF assms(1)])
  have sym: "b \<in> T a \<Longrightarrow> a \<in> T b" for a b
    using assms(2) unfolding sym_adj_def T_def by blast
  have "b \<in> T' a \<Longrightarrow> a \<in> T' b" for a b
    unfolding eq using sym by (auto split: if_splits)
  then show ?thesis unfolding sym_adj_def T'_def by blast
qed

lemma add_edges_sym: "add_edges adj es = Inr adj' \<Longrightarrow> sym_adj adj \<Longrightarrow> sym_adj adj'"
proof (induction es arbitrary: adj)
  case Nil
  then show ?case by simp
next
  case (Cons e es)
  from Cons.prems(1) obtain adj1 where a: "add_edge adj e = Inr adj1"
    and r: "add_edges adj1 es = Inr adj'"
    by (auto split: sum.splits)
  from Cons.IH[OF r add_edge_sym[OF a Cons.prems(2)]] show ?case .
qed

lemma buildAdjacency_sym: "buildAdjacency ns es = Inr adj \<Longrightarrow> sym_adj adj"
  unfolding buildAdjacency_def
  by (erule add_edges_sym) (simp add: sym_adj_def adj_list_init)

text \<open>
  Claim C6, as amended. In every snapshot of every run, each value of the parents map is a node
  dequeued earlier in the run: it is the current node of an earlier \<open>exploring\<close> snapshot. The
  parents map has no entry for the start node when duplicate checking is on, and in every
  bidirectional run. (With duplicate checking off the shared loop can record a parent for the
  start node: see the counterexample.)
\<close>

theorem parents_invariant:
  assumes "GraphSearch fl ns es startId endId t opts = Inr h" and "i < length h"
    and "parents (h ! i) k = Some v"
  shows "(\<exists>j<i. status (h ! j) = Exploring \<and> current (h ! j) = Some v) \<and>
         (checkDuplicates opts \<or> t = BiBFS \<longrightarrow> k \<noteq> startId)"
proof -
  let ?g = "\<lparr>gs_nodes = ns, gs_edges = es, gs_startId = startId, gs_endId = endId,
             gs_type = t, gs_options = opts, gs_float = fl\<rparr>"
  from assms(1) obtain adj where adj: "buildAdjacency ns es = Inr adj"
    and run: "run ?g adj = Inr h"
    by (auto simp: GraphSearch_def split: sum.splits)
  have "parents_justified h \<and>
        (checkDuplicates opts \<or> t = BiBFS \<longrightarrow> start_free startId h)"
  proof (cases "t = BiBFS")
    case True
    with run have "h = runBiBFS ?g adj" by (simp add: run_def)
    with runBiBFS_parents[OF buildAdjacency_sym[OF adj], of ?g] show ?thesis by simp
  next
    case False
    with run_parents[OF run] show ?thesis by simp
  qed
  then have pj: "parents_justified h"
    and sf: "checkDuplicates opts \<or> t = BiBFS \<Longrightarrow> start_free startId h" by blast+
  from parents_justified_nth[OF pj assms(2,3)]
  have 1: "\<exists>j<i. status (h ! j) = Exploring \<and> current (h ! j) = Some v" .
  have 2: "checkDuplicates opts \<or> t = BiBFS \<longrightarrow> k \<noteq> startId"
  proof
    assume "checkDuplicates opts \<or> t = BiBFS"
    from sf[OF this] assms(2) have "parents (h ! i) startId = None"
      unfolding start_free_def by simp
    with assms(3) show "k \<noteq> startId" by auto
  qed
  from 1 2 show ?thesis by blast
qed

lemma path_BFS_eval:
  "\<exists>s0 s1 s2 s3. GraphSearch exact_ops path_nodes path_edges 0 3 BFS dup_on = Inr [s0, s1, s2, s3] \<and>
     parents s3 3 = Some 2 \<and> status s2 = Exploring \<and> current s2 = Some 2"
  by (simp add: eval_simps)

theorem parents_invariant_witness:
  "GraphSearch exact_ops path_nodes path_edges 0 3 BFS dup_on
     = Inr (projr (GraphSearch exact_ops path_nodes path_edges 0 3 BFS dup_on)) \<and>
   3 < length (projr (GraphSearch exact_ops path_nodes path_edges 0 3 BFS dup_on)) \<and>
   parents (projr (GraphSearch exact_ops path_nodes path_edges 0 3 BFS dup_on) ! 3) 3 = Some 2 \<and>
   (\<exists>j<3. status (projr (GraphSearch exact_ops path_nodes path_edges 0 3 BFS dup_on) ! j) = Exploring \<and>
          current (projr (GraphSearch exact_ops path_nodes path_edges 0 3 BFS dup_on) ! j) = Some 2) \<and>
   checkDuplicates dup_on \<and> (3::nat) \<noteq> 0"
proof -
  from path_BFS_eval obtain s0 s1 s2 s3 where
    r: "GraphSearch exact_ops path_nodes path_edges 0 3 BFS dup_on = Inr [s0, s1, s2, s3]" and
    p: "parents s3 3 = Some 2" by blast
  have "3 < length [s0, s1, s2, s3]" "parents ([s0, s1, s2, s3] ! 3) 3 = Some 2"
    using p by simp_all
  from parents_invariant[OF r this] p show ?thesis unfolding r by (simp add: dup_on_def)
qed

text \<open>
  BFS with duplicate checking off on the path A - B - C - D, from A to D: when B is expanded its
  neighbour A is pushed again and B is recorded as the parent of the start A.
\<close>

theorem parents_invariant_counterexample:
  "parents (projr (GraphSearch exact_ops path_nodes path_edges 0 3 BFS dup_off) ! 2) 0 = Some 1"
  by (simp add: eval_simps)

section \<open>The bidirectional search\<close>

lemma dequeued_append: "dequeued sd (xs @ ys) = dequeued sd xs @ dequeued sd ys"
  by (induction xs) (auto split: option.splits)

lemma expand_side_queue:
  "expand_side c es (v, p, q) = (v', p', q') \<Longrightarrow>
   \<exists>new. q' = q @ new \<and> distinct new \<and> set new \<inter> v = {} \<and> v' = v \<union> set new"
proof (induction es arbitrary: v p q)
  case Nil
  then show ?case by simp
next
  case (Cons e es)
  show ?case
  proof (cases "adj_to e \<in> v")
    case True
    with Cons.prems have "expand_side c es (v, p, q) = (v', p', q')" by simp
    from Cons.IH[OF this] show ?thesis .
  next
    case False
    with Cons.prems have
      "expand_side c es (insert (adj_to e) v, p(adj_to e \<mapsto> c), q @ [adj_to e]) = (v', p', q')"
      by simp
    from Cons.IH[OF this] obtain new where
      n: "q' = (q @ [adj_to e]) @ new" "distinct new" "set new \<inter> insert (adj_to e) v = {}"
         "v' = insert (adj_to e) v \<union> set new"
      by blast
    have "q' = q @ (adj_to e # new)" using n(1) by simp
    moreover have "distinct (adj_to e # new)" using n(2,3) by auto
    moreover have "set (adj_to e # new) \<inter> v = {}" using n(3) False by auto
    moreover have "v' = v \<union> set (adj_to e # new)" using n(4) by auto
    ultimately show ?thesis by blast
  qed
qed

lemma distinct_sided:
  "distinct qS \<Longrightarrow> distinct qE \<Longrightarrow>
   distinct (map (\<lambda>i. Sided i StartSide) qS @ map (\<lambda>i. Sided i EndSide) qE)"
  by (auto simp: distinct_map inj_on_def)

lemma start_snapshot_simps [simp]:
  "activeSide (start_snapshot st) = Some StartSide"
  "current (start_snapshot st) = Some (hd (qStart st))"
  "status (start_snapshot st) = Exploring"
  "queue (start_snapshot st)
     = map (\<lambda>i. Sided i StartSide) (tl (qStart st)) @ map (\<lambda>i. Sided i EndSide) (qEnd st)"
  by (simp_all add: start_snapshot_def bi_snapshot_def)

lemma end_snapshot_simps [simp]:
  "activeSide (end_snapshot st vS1 pS1 qS2) = Some EndSide"
  "current (end_snapshot st vS1 pS1 qS2) = Some (hd (qEnd st))"
  "status (end_snapshot st vS1 pS1 qS2) = Exploring"
  "queue (end_snapshot st vS1 pS1 qS2)
     = map (\<lambda>i. Sided i StartSide) qS2 @ map (\<lambda>i. Sided i EndSide) (tl (qEnd st))"
  by (simp_all add: end_snapshot_def bi_snapshot_def)

lemma mark_found_more_simps [simp]:
  "activeSide (mark_found i x) = activeSide x"
  "current (mark_found i x) = current x"
  "queue (mark_found i x) = queue x"
  by (simp_all add: mark_found_def)

lemma pop_push_distinct:
  assumes "distinct (d @ q)" and "set (d @ q) \<subseteq> v" and "q \<noteq> []"
    and "distinct new" and "set new \<inter> v = {}"
  shows "distinct ((d @ [hd q]) @ tl q @ new) \<and> set ((d @ [hd q]) @ tl q @ new) \<subseteq> v \<union> set new"
proof -
  from assms(3) obtain x xs where q: "q = x # xs" by (cases q) auto
  show ?thesis using assms(1,2,4,5) unfolding q by auto
qed

lemma dist_inv_step:
  assumes "dist_inv a" and "qStart a \<noteq> []" and "qEnd a \<noteq> []"
    and "bi_iteration adj a = Continue b"
  shows "dist_inv b"
  using assms(4)
proof (cases rule: bi_iteration_ContinueE)
  case (1 vS1 pS1 qS2 vE1 pE1 qE2)
  let ?x1 = "start_snapshot a" and ?x2 = "end_snapshot a vS1 pS1 qS2"
  from assms(1) have
    dS: "distinct (dequeued StartSide (bi_history a) @ qStart a)"
      "set (dequeued StartSide (bi_history a) @ qStart a) \<subseteq> visitedStart a" and
    dE: "distinct (dequeued EndSide (bi_history a) @ qEnd a)"
      "set (dequeued EndSide (bi_history a) @ qEnd a) \<subseteq> visitedEnd a" and
    hq: "\<forall>x \<in> set (bi_history a). distinct (queue x) \<and> status x = Exploring"
    by (simp_all add: dist_inv_def)
  from expand_side_queue[OF 1(2)] obtain newS where
    nS: "qS2 = tl (qStart a) @ newS" "distinct newS" "set newS \<inter> visitedStart a = {}"
        "vS1 = visitedStart a \<union> set newS" by blast
  from expand_side_queue[OF 1(4)] obtain newE where
    nE: "qE2 = tl (qEnd a) @ newE" "distinct newE" "set newE \<inter> visitedEnd a = {}"
        "vE1 = visitedEnd a \<union> set newE" by blast
  have hS: "dequeued StartSide (bi_history a @ [?x1, ?x2])
            = dequeued StartSide (bi_history a) @ [hd (qStart a)]"
    by (simp add: dequeued_append)
  have hE: "dequeued EndSide (bi_history a @ [?x1, ?x2])
            = dequeued EndSide (bi_history a) @ [hd (qEnd a)]"
    by (simp add: dequeued_append)
  from pop_push_distinct[OF dS assms(2) nS(2,3)] have
    S: "distinct ((dequeued StartSide (bi_history a) @ [hd (qStart a)]) @ qS2)"
       "set ((dequeued StartSide (bi_history a) @ [hd (qStart a)]) @ qS2) \<subseteq> vS1"
    unfolding nS(1) nS(4) by blast+
  from pop_push_distinct[OF dE assms(3) nE(2,3)] have
    E: "distinct ((dequeued EndSide (bi_history a) @ [hd (qEnd a)]) @ qE2)"
       "set ((dequeued EndSide (bi_history a) @ [hd (qEnd a)]) @ qE2) \<subseteq> vE1"
    unfolding nE(1) nE(4) by blast+
  have tS: "distinct (tl (qStart a))" using dS(1) by (simp add: distinct_tl)
  have tE: "distinct (tl (qEnd a))" using dE(1) by (simp add: distinct_tl)
  have qE: "distinct (qEnd a)" using dE(1) by simp
  have q2: "distinct qS2" using S(1) by simp
  have "distinct (queue ?x1)"
    unfolding start_snapshot_simps by (rule distinct_sided[OF tS qE])
  moreover have "distinct (queue ?x2)"
    unfolding end_snapshot_simps by (rule distinct_sided[OF q2 tE])
  ultimately have "\<forall>x \<in> set (bi_history a @ [?x1, ?x2]). distinct (queue x) \<and> status x = Exploring"
    using hq by auto
  with S E show ?thesis unfolding dist_inv_def 1(5) by (simp add: hS hE)
qed

lemma dist_inv_final:
  assumes "dist_inv st"
    and "((qStart st = [] \<or> qEnd st = []) \<and> h = bi_history st) \<or>
         (qStart st \<noteq> [] \<and> qEnd st \<noteq> [] \<and> bi_iteration adj st = Return h)"
  shows "distinct (dequeued StartSide h) \<and> distinct (dequeued EndSide h) \<and>
         (\<forall>x \<in> set h. distinct (queue x)) \<and>
         (\<forall>x \<in> set (butlast h). status x = Exploring) \<and>
         (h \<noteq> [] \<longrightarrow> status (last h) = Exploring \<or> status (last h) = Found)"
proof -
  from assms(1) have
    dS: "distinct (dequeued StartSide (bi_history st) @ qStart st)"
      "set (dequeued StartSide (bi_history st) @ qStart st) \<subseteq> visitedStart st" and
    dE: "distinct (dequeued EndSide (bi_history st) @ qEnd st)"
      "set (dequeued EndSide (bi_history st) @ qEnd st) \<subseteq> visitedEnd st" and
    hq: "\<forall>x \<in> set (bi_history st). distinct (queue x) \<and> status x = Exploring"
    by (simp_all add: dist_inv_def)
  from assms(2) consider (stopped) "h = bi_history st"
    | (ret) "qStart st \<noteq> []" "qEnd st \<noteq> []" "bi_iteration adj st = Return h"
    by blast
  then show ?thesis
  proof cases
    case stopped
    have "\<forall>x \<in> set (butlast h). status x = Exploring"
      using hq stopped by (auto dest: in_set_butlastD)
    moreover have "h \<noteq> [] \<longrightarrow> status (last h) = Exploring"
      using hq stopped by auto
    ultimately show ?thesis using dS(1) dE(1) hq stopped by auto
  next
    case ret
    have tS: "distinct (tl (qStart st))" using dS(1) by (simp add: distinct_tl)
    have tE: "distinct (tl (qEnd st))" using dE(1) by (simp add: distinct_tl)
    have qE: "distinct (qEnd st)" using dE(1) by simp
    have nil: "distinct ([]::nat list)" "set ([]::nat list) \<inter> visitedStart st = {}" by simp_all
    from pop_push_distinct[OF dS ret(1) nil] have
      S1: "distinct (dequeued StartSide (bi_history st) @ [hd (qStart st)])" by simp
    have nilE: "distinct ([]::nat list)" "set ([]::nat list) \<inter> visitedEnd st = {}" by simp_all
    from pop_push_distinct[OF dE ret(2) nilE] have
      E1: "distinct (dequeued EndSide (bi_history st) @ [hd (qEnd st)])" by simp
    from ret(3) show ?thesis
    proof (cases rule: bi_iteration_ReturnE)
      case at_start
      have "distinct (queue (start_snapshot st))"
        unfolding start_snapshot_simps by (rule distinct_sided[OF tS qE])
      with at_start(2) S1 dE(1) hq show ?thesis by (simp add: dequeued_append)
    next
      case (at_end vS1 pS1 qS2)
      from expand_side_queue[OF at_end(2)] obtain newS where
        nS: "qS2 = tl (qStart st) @ newS" "distinct newS" "set newS \<inter> visitedStart st = {}"
        by blast
      from pop_push_distinct[OF dS ret(1) nS(2,3)] have "distinct qS2"
        unfolding nS(1) by simp
      then have "distinct (queue (end_snapshot st vS1 pS1 qS2))"
        unfolding end_snapshot_simps by (rule distinct_sided[OF _ tE])
      moreover have "distinct (queue (start_snapshot st))"
        unfolding start_snapshot_simps by (rule distinct_sided[OF tS qE])
      ultimately show ?thesis
        using at_end(4) S1 E1 hq by (simp add: dequeued_append butlast_append)
    qed
  qed
qed

lemma runBiBFS_distinct:
  "distinct (dequeued StartSide (runBiBFS g adj)) \<and>
   distinct (dequeued EndSide (runBiBFS g adj)) \<and>
   (\<forall>x \<in> set (runBiBFS g adj). distinct (queue x)) \<and>
   (\<forall>x \<in> set (butlast (runBiBFS g adj)). status x = Exploring) \<and>
   (runBiBFS g adj \<noteq> [] \<longrightarrow>
      status (last (runBiBFS g adj)) = Exploring \<or> status (last (runBiBFS g adj)) = Found)"
proof -
  let ?st = "\<lparr>qStart = [gs_startId g], qEnd = [gs_endId g],
        visitedStart = {gs_startId g}, visitedEnd = {gs_endId g},
        parentStart = Map.empty, parentEnd = Map.empty, bi_history = []\<rparr>"
  have i0: "dist_inv ?st" by (simp add: dist_inv_def)
  have "\<exists>st'. dist_inv st' \<and>
           (((qStart st' = [] \<or> qEnd st' = []) \<and> runBiBFS_loop adj ?st = bi_history st') \<or>
            (qStart st' \<noteq> [] \<and> qEnd st' \<noteq> [] \<and>
             bi_iteration adj st' = Return (runBiBFS_loop adj ?st)))"
  proof (rule bi_loop_final[where I = dist_inv, OF i0])
    show "\<And>a b. dist_inv a \<Longrightarrow> qStart a \<noteq> [] \<Longrightarrow> qEnd a \<noteq> [] \<Longrightarrow>
           bi_iteration adj a = Continue b \<Longrightarrow> dist_inv b"
      by (rule dist_inv_step)
  qed
  then obtain st' where "dist_inv st'"
    "((qStart st' = [] \<or> qEnd st' = []) \<and> runBiBFS_loop adj ?st = bi_history st') \<or>
     (qStart st' \<noteq> [] \<and> qEnd st' \<noteq> [] \<and> bi_iteration adj st' = Return (runBiBFS_loop adj ?st))"
    by blast
  then show ?thesis unfolding runBiBFS_def by (rule dist_inv_final)
qed

text \<open>
  Claim C10. The history of a bidirectional run is the same for every value of the options,
  duplicate checking included: \<open>runBiBFS\<close> never reads them. Duplicates are suppressed on both
  sides whatever the option says: no node is dequeued twice by the same side, and no queue
  recorded in a snapshot holds an entry twice.
\<close>

theorem BiBFS_ignores_options:
  "GraphSearch fl ns es startId endId BiBFS opts = GraphSearch fl ns es startId endId BiBFS opts' \<and>
   (\<forall>h. GraphSearch fl ns es startId endId BiBFS opts = Inr h \<longrightarrow>
      distinct (dequeued StartSide h) \<and> distinct (dequeued EndSide h) \<and>
      (\<forall>x \<in> set h. distinct (queue x)))"
proof (cases "buildAdjacency ns es")
  case (Inl err)
  then show ?thesis by (simp add: GraphSearch_def)
next
  case (Inr adj)
  then show ?thesis
    using runBiBFS_distinct[of "\<lparr>gs_nodes = ns, gs_edges = es, gs_startId = startId,
        gs_endId = endId, gs_type = BiBFS, gs_options = opts, gs_float = fl\<rparr>" adj]
    by (auto simp: GraphSearch_def run_def runBiBFS_def)
qed

lemma path_BiBFS_eval:
  "\<exists>h. GraphSearch exact_ops path_nodes path_edges 0 3 BiBFS dup_on = Inr h \<and>
       dequeued StartSide h = [0, 1] \<and> dequeued EndSide h = [3, 2]"
  by (simp add: eval_simps)

theorem BiBFS_ignores_options_witness:
  "GraphSearch exact_ops path_nodes path_edges 0 3 BiBFS dup_on
     = GraphSearch exact_ops path_nodes path_edges 0 3 BiBFS dup_off \<and>
   (\<exists>h. GraphSearch exact_ops path_nodes path_edges 0 3 BiBFS dup_on = Inr h \<and>
        dequeued StartSide h = [0, 1] \<and> dequeued EndSide h = [3, 2] \<and>
        distinct (dequeued StartSide h) \<and> distinct (dequeued EndSide h))"
proof -
  from path_BiBFS_eval obtain h where
    h: "GraphSearch exact_ops path_nodes path_edges 0 3 BiBFS dup_on = Inr h"
       "dequeued StartSide h = [0, 1]" "dequeued EndSide h = [3, 2]" by blast
  note t = BiBFS_ignores_options[where fl = exact_ops and ns = path_nodes and es = path_edges
      and startId = 0 and endId = 3 and opts = dup_on and opts' = dup_off]
  from t have eq: "GraphSearch exact_ops path_nodes path_edges 0 3 BiBFS dup_on
                   = GraphSearch exact_ops path_nodes path_edges 0 3 BiBFS dup_off" by blast
  from t h(1) have "distinct (dequeued StartSide h) \<and> distinct (dequeued EndSide h)"
    by blast
  with eq h show ?thesis by blast
qed

text \<open>
  Claim C1 at two nodes without an edge: the start-side queue empties without an intersection,
  and the history of the bidirectional run is two \<open>exploring\<close> snapshots, with no terminal one.
\<close>

theorem BiBFS_ends_exploring:
  "\<not> isl (GraphSearch exact_ops two_nodes [] 0 1 BiBFS dup_on) \<and>
   map status (projr (GraphSearch exact_ops two_nodes [] 0 1 BiBFS dup_on)) = [Exploring, Exploring]"
  by (simp add: eval_simps)

section \<open>Reconstructing the path of a bidirectional run\<close>

text \<open>
  Claim C9 at the path A - B - C - D, searched from A to D. The two searches meet in C. The
  snapshot has one parent map, \<open>{...parentStart, ...parentEnd}\<close>, in which the end side's entry
  for C (its parent D) has replaced the start side's (B), and D has no entry. The loop that the
  source comments as \<open>From Start -> Intersect\<close> therefore goes from C to D and stops there, and
  \<open>getPath\<close> returns A, D, C: the start, then the end-side chain from the end to the
  intersection. That is neither the sequence A, B, C, D of the claim nor the segment A, B, C
  of the comment, and not a path of the graph.
\<close>

theorem getPath_BiBFS_follows_end_side:
  "status (last (projr (GraphSearch exact_ops path_nodes path_edges 0 3 BiBFS dup_on))) = Found \<and>
   intersect (last (projr (GraphSearch exact_ops path_nodes path_edges 0 3 BiBFS dup_on))) = Some 2 \<and>
   parents (last (projr (GraphSearch exact_ops path_nodes path_edges 0 3 BiBFS dup_on)))
     = [1 \<mapsto> 0, 2 \<mapsto> 3] \<and>
   getPath 0 3 BiBFS (last (projr (GraphSearch exact_ops path_nodes path_edges 0 3 BiBFS dup_on)))
     = Some [0, 3, 2]"
  by (simp add: eval_simps getPath_def bi_walk.simps)

end
